theory Spec2Isabelle
  imports Main "HOL-Library.Word"
begin

unbundle bit_operations_syntax

section \<open>Platform, configuration and memory\<close>

text \<open>
  The heap of \<^verbatim>\<open>jerry-core/jmem/jmem-heap.c\<close> is modelled for the build the
  repository's embedding targets (\<^verbatim>\<open>embedding/mbedk64f\<close>, a 32-bit Cortex-M4):
  \<^verbatim>\<open>UINTPTR_MAX <= UINT32_MAX\<close>, so \<^verbatim>\<open>size_t\<close>, \<^verbatim>\<open>uintptr_t\<close>, \<^verbatim>\<open>uint32_t\<close> and
  pointers are all 32-bit words, \<^verbatim>\<open>JMEM_HEAP_GET_OFFSET_FROM_ADDR\<close> and
  \<^verbatim>\<open>JMEM_HEAP_GET_ADDR_FROM_OFFSET\<close> are the identity, and pointer comparison is
  unsigned word comparison. Assertions are on (\<^verbatim>\<open>JERRY_NDEBUG\<close> undefined, which is
  also the only build that has \<^verbatim>\<open>jmem_is_heap_pointer\<close>); \<^verbatim>\<open>JMEM_STATS\<close>,
  \<^verbatim>\<open>JERRY_VALGRIND\<close>, \<^verbatim>\<open>JERRY_VALGRIND_FREYA\<close> and \<^verbatim>\<open>JMEM_GC_BEFORE_EACH_ALLOC\<close>
  are undefined.

  Memory is an array of 32-bit cells indexed by their byte address; every access of the
  allocator is a \<^verbatim>\<open>uint32_t\<close> field of a \<^verbatim>\<open>jmem_heap_free_t\<close>, whose two fields
  \<^verbatim>\<open>next_offset\<close> and \<^verbatim>\<open>size\<close> lie at byte offsets 0 and 4 of the node.
\<close>

type_synonym u32 = "32 word"
type_synonym memory = "u32 \<Rightarrow> u32"

abbreviation (input) next_offset_of :: "memory \<Rightarrow> u32 \<Rightarrow> u32" where
  "next_offset_of m p \<equiv> m p"

abbreviation (input) size_of :: "memory \<Rightarrow> u32 \<Rightarrow> u32" where
  "size_of m p \<equiv> m (p + 4)"

text \<open>
  The configuration constants come from headers that are not part of the sources at hand
  (\<^verbatim>\<open>jmem-config.h\<close>, \<^verbatim>\<open>jmem-allocator.h\<close>); the heap size, the limit step, the offset
  width and the link address of the object \<^verbatim>\<open>jmem_heap\<close> are parameters.
\<close>

record jmem_config =
  heap_addr :: u32
  JMEM_HEAP_SIZE :: u32
  CONFIG_MEM_HEAP_DESIRED_LIMIT :: u32
  JMEM_HEAP_OFFSET_LOG :: nat

text \<open>
  Modelled from the spec: the alignment constants of the absent \<^verbatim>\<open>jmem-config.h\<close>
  (``\<^verbatim>\<open>ALIGNMENT\<close> is a power of two (typically 8) and \<^verbatim>\<open>ALIGNMENT_LOG\<close> is its base-2
  logarithm''). The fast path of the allocator itself fixes the value: it advances a
  \<^verbatim>\<open>jmem_heap_free_t *\<close> by one element, that is by \<^verbatim>\<open>sizeof (jmem_heap_free_t) = 8\<close> bytes,
  where it accounts for \<^verbatim>\<open>JMEM_ALIGNMENT\<close> bytes.
\<close>

definition JMEM_ALIGNMENT_LOG :: nat where
  "JMEM_ALIGNMENT_LOG = 3"

definition JMEM_ALIGNMENT :: u32 where
  "JMEM_ALIGNMENT = 8"

text \<open>Modelled from the spec: the reserved compressed-pointer code \<^verbatim>\<open>CP_NULL\<close> (zero).\<close>

definition JMEM_CP_NULL :: u32 where
  "JMEM_CP_NULL = 0"

definition NULL :: u32 where
  "NULL = 0"

definition JMEM_HEAP_AREA_SIZE :: "jmem_config \<Rightarrow> u32" where
  "JMEM_HEAP_AREA_SIZE L = JMEM_HEAP_SIZE L - JMEM_ALIGNMENT"

definition JMEM_HEAP_END_OF_LIST :: u32 where
  "JMEM_HEAP_END_OF_LIST = NOT 0"

text \<open>
  \<^verbatim>\<open>jmem_heap_t\<close> is the sentinel node \<^verbatim>\<open>first\<close> (8 bytes) followed by \<^verbatim>\<open>area\<close>, which is
  aligned to \<^verbatim>\<open>JMEM_ALIGNMENT\<close>: \<^verbatim>\<open>&jmem_heap.first\<close> is the address of the object and
  \<^verbatim>\<open>jmem_heap.area\<close> starts 8 bytes later.
\<close>

definition first_p :: "jmem_config \<Rightarrow> u32" where
  "first_p L = heap_addr L"

definition area :: "jmem_config \<Rightarrow> u32" where
  "area L = heap_addr L + 8"

record jmem_heap_state =
  memory :: memory
  jmem_heap_allocated_size :: u32
  jmem_heap_limit :: u32
  jmem_heap_list_skip_p :: u32

section \<open>Results: assertion failures, fatal exits, divergence\<close>

datatype error = Assertion_failed | ERR_OUT_OF_MEMORY | Null_dereference

text \<open>
  A call either does not return (\<open>None\<close>: a loop that runs forever), or stops the
  process (\<open>Some (Inl e)\<close>: a failed \<^verbatim>\<open>JERRY_ASSERT\<close>, \<^verbatim>\<open>jerry_fatal\<close>, a store through
  the null pointer), or returns (\<open>Some (Inr x)\<close>).
\<close>

type_synonym 'a res = "(error + 'a) option"

definition ret :: "'a \<Rightarrow> 'a res" where
  "ret x = Some (Inr x)"

definition stop :: "error \<Rightarrow> 'a res" where
  "stop e = Some (Inl e)"

definition bind_res :: "'a res \<Rightarrow> ('a \<Rightarrow> 'b res) \<Rightarrow> 'b res" where
  "bind_res r f = (case r of None \<Rightarrow> None | Some (Inl e) \<Rightarrow> Some (Inl e) | Some (Inr x) \<Rightarrow> f x)"

section \<open>The heap\<close>

definition jmem_is_heap_pointer :: "jmem_config \<Rightarrow> u32 \<Rightarrow> bool" where
  "jmem_is_heap_pointer L pointer \<longleftrightarrow>
     pointer \<ge> area L \<and> pointer \<le> area L + JMEM_HEAP_AREA_SIZE L"

definition jmem_heap_get_region_end :: "memory \<Rightarrow> u32 \<Rightarrow> u32" where
  "jmem_heap_get_region_end m curr_p = curr_p + size_of m curr_p"

definition jmem_heap_init :: "jmem_config \<Rightarrow> jmem_heap_state \<Rightarrow> jmem_heap_state res" where
  "jmem_heap_init L h =
     (if area L mod JMEM_ALIGNMENT \<noteq> 0 then stop Assertion_failed
      else
        let m1 = (memory h)(first_p L + 4 := 0);
            region_p = area L;
            m2 = m1(first_p L := region_p);
            m3 = m2(region_p + 4 := JMEM_HEAP_AREA_SIZE L);
            m4 = m3(region_p := JMEM_HEAP_END_OF_LIST)
        in ret \<lparr>memory = m4, jmem_heap_allocated_size = 0,
                jmem_heap_limit = CONFIG_MEM_HEAP_DESIRED_LIMIT L,
                jmem_heap_list_skip_p = first_p L\<rparr>)"

definition jmem_heap_finalize :: "jmem_heap_state \<Rightarrow> jmem_heap_state res" where
  "jmem_heap_finalize h =
     (if jmem_heap_allocated_size h \<noteq> 0 then stop Assertion_failed else ret h)"

subsection \<open>Allocation\<close>

text \<open>The loop \<^verbatim>\<open>while (jmem_heap_allocated_size >= jmem_heap_limit)\<close> that raises the limit.\<close>

partial_function (option) grow_limit :: "jmem_config \<Rightarrow> jmem_heap_state \<Rightarrow> jmem_heap_state res" where
  "grow_limit L h =
     (if jmem_heap_allocated_size h \<ge> jmem_heap_limit h
      then grow_limit L (h\<lparr>jmem_heap_limit := jmem_heap_limit h + CONFIG_MEM_HEAP_DESIRED_LIMIT L\<rparr>)
      else Some (Inr h))"

text \<open>The fast path: the first region serves a request of \<^verbatim>\<open>JMEM_ALIGNMENT\<close> bytes.\<close>

definition alloc_fast_path :: "jmem_config \<Rightarrow> jmem_heap_state \<Rightarrow> (u32 \<times> jmem_heap_state) res" where
  "alloc_fast_path L h =
     (let m = memory h;
          data_space_p = next_offset_of m (first_p L)
      in if \<not> jmem_is_heap_pointer L data_space_p then stop Assertion_failed
         else
           let allocated = jmem_heap_allocated_size h + JMEM_ALIGNMENT
           in if size_of m data_space_p = JMEM_ALIGNMENT then
                let m1 = m(first_p L := next_offset_of m data_space_p);
                    skip = (if data_space_p = jmem_heap_list_skip_p h
                            then next_offset_of m1 (first_p L) else jmem_heap_list_skip_p h)
                in ret (data_space_p,
                        h\<lparr>memory := m1, jmem_heap_allocated_size := allocated,
                          jmem_heap_list_skip_p := skip\<rparr>)
              else if \<not> size_of m data_space_p > JMEM_ALIGNMENT then stop Assertion_failed
              else
                let remaining_p = next_offset_of m (first_p L) + 8;
                    m1 = m(remaining_p + 4 := size_of m data_space_p - JMEM_ALIGNMENT);
                    m2 = m1(remaining_p := next_offset_of m1 data_space_p);
                    m3 = m2(first_p L := remaining_p);
                    skip = (if data_space_p = jmem_heap_list_skip_p h
                            then next_offset_of m3 (first_p L) else jmem_heap_list_skip_p h)
                in ret (data_space_p,
                        h\<lparr>memory := m3, jmem_heap_allocated_size := allocated,
                          jmem_heap_list_skip_p := skip\<rparr>))"

text \<open>
  The slow path: the first-fit walk \<^verbatim>\<open>while (current_p != JMEM_HEAP_END_OF_LIST)\<close>.
  It returns \<open>NULL\<close> and the state as it is when the walk reaches the end of the list.
\<close>

partial_function (option) alloc_walk ::
  "jmem_config \<Rightarrow> u32 \<Rightarrow> u32 \<Rightarrow> u32 \<Rightarrow> jmem_heap_state \<Rightarrow> (u32 \<times> jmem_heap_state) res" where
  "alloc_walk L required_size prev_p current_p h =
     (if current_p \<noteq> JMEM_HEAP_END_OF_LIST then
        (if \<not> jmem_is_heap_pointer L current_p then Some (Inl Assertion_failed)
         else
           let m = memory h;
               next_offset = next_offset_of m current_p
           in if \<not> (jmem_is_heap_pointer L next_offset \<or> next_offset = JMEM_HEAP_END_OF_LIST)
              then Some (Inl Assertion_failed)
              else if size_of m current_p \<ge> required_size then
                (let allocated = jmem_heap_allocated_size h + required_size;
                     m' = (if size_of m current_p > required_size then
                             let remaining_p = current_p + required_size;
                                 m1 = m(remaining_p + 4 := size_of m current_p - required_size);
                                 m2 = m1(remaining_p := next_offset)
                             in m2(prev_p := remaining_p)
                           else m(prev_p := next_offset))
                 in Some (Inr (current_p,
                      h\<lparr>memory := m', jmem_heap_allocated_size := allocated,
                        jmem_heap_list_skip_p := prev_p\<rparr>)))
              else alloc_walk L required_size current_p next_offset h)
      else Some (Inr (NULL, h)))"

definition jmem_heap_alloc_block_internal ::
  "jmem_config \<Rightarrow> u32 \<Rightarrow> jmem_heap_state \<Rightarrow> (u32 \<times> jmem_heap_state) res" where
  "jmem_heap_alloc_block_internal L sz h =
     (let required_size = ((sz + JMEM_ALIGNMENT - 1) div JMEM_ALIGNMENT) * JMEM_ALIGNMENT
      in bind_res
           (if required_size = JMEM_ALIGNMENT
               \<and> next_offset_of (memory h) (first_p L) \<noteq> JMEM_HEAP_END_OF_LIST
            then alloc_fast_path L h
            else alloc_walk L required_size (first_p L) (next_offset_of (memory h) (first_p L)) h)
           (\<lambda>(data_space_p, h1).
              bind_res (grow_limit L h1)
                (\<lambda>h2. if data_space_p = NULL then ret (NULL, h2)
                       else if data_space_p mod JMEM_ALIGNMENT \<noteq> 0 then stop Assertion_failed
                       else ret (data_space_p, h2))))"

subsection \<open>Deallocation\<close>

text \<open>The walk \<^verbatim>\<open>while (prev_p->next_offset < block_offset)\<close> that finds the insertion point.\<close>

partial_function (option) free_walk :: "jmem_config \<Rightarrow> u32 \<Rightarrow> u32 \<Rightarrow> memory \<Rightarrow> u32 res" where
  "free_walk L block_offset prev_p m =
     (if next_offset_of m prev_p < block_offset then
        (let next_p = next_offset_of m prev_p
         in if \<not> jmem_is_heap_pointer L next_p then Some (Inl Assertion_failed)
            else free_walk L block_offset next_p m)
      else Some (Inr prev_p))"

text \<open>The loop \<^verbatim>\<open>while (jmem_heap_allocated_size + CONFIG_MEM_HEAP_DESIRED_LIMIT <= jmem_heap_limit)\<close>.\<close>

partial_function (option) shrink_limit :: "jmem_config \<Rightarrow> jmem_heap_state \<Rightarrow> jmem_heap_state res" where
  "shrink_limit L h =
     (if jmem_heap_allocated_size h + CONFIG_MEM_HEAP_DESIRED_LIMIT L \<le> jmem_heap_limit h
      then shrink_limit L (h\<lparr>jmem_heap_limit := jmem_heap_limit h - CONFIG_MEM_HEAP_DESIRED_LIMIT L\<rparr>)
      else Some (Inr h))"

text \<open>
  The two steps ``Update prev'' and ``Update next'' of \<^verbatim>\<open>jmem_heap_free_block\<close>: the block
  is merged into the region before it when that region ends at the block, and linked
  behind it otherwise; the resulting region absorbs the region behind it when it ends
  there, and is linked to it otherwise. (The store to \<^verbatim>\<open>jmem_heap_list_skip_p\<close> inside the
  second step is overwritten unconditionally right after it and is left out.)
\<close>

definition free_insert :: "memory \<Rightarrow> u32 \<Rightarrow> u32 \<Rightarrow> u32 \<Rightarrow> u32 \<Rightarrow> memory" where
  "free_insert m prev_p next_p block_p aligned_size =
     (let block_offset = block_p;
          (m1, block_p1) =
            (if jmem_heap_get_region_end m prev_p = block_p
             then (m(prev_p + 4 := size_of m prev_p + aligned_size), prev_p)
             else ((m(block_p + 4 := aligned_size))(prev_p := block_offset), block_p))
      in if jmem_heap_get_region_end m1 block_p1 = next_p
         then let ma = m1(block_p1 + 4 := size_of m1 block_p1 + size_of m1 next_p)
              in ma(block_p1 := next_offset_of ma next_p)
         else m1(block_p1 := next_p))"

definition jmem_heap_free_block ::
  "jmem_config \<Rightarrow> u32 \<Rightarrow> u32 \<Rightarrow> jmem_heap_state \<Rightarrow> jmem_heap_state res" where
  "jmem_heap_free_block L ptr sz h =
     (if \<not> jmem_is_heap_pointer L ptr then stop Assertion_failed
      else if \<not> sz > 0 then stop Assertion_failed
      else if \<not> jmem_heap_limit h \<ge> jmem_heap_allocated_size h then stop Assertion_failed
      else
        let block_p = ptr;
            prev_p0 = (if block_p > jmem_heap_list_skip_p h
                       then jmem_heap_list_skip_p h else first_p L);
            block_offset = block_p;
            m = memory h
        in bind_res (free_walk L block_offset prev_p0 m)
          (\<lambda>prev_p.
             let next_p = next_offset_of m prev_p;
                 aligned_size = (sz + JMEM_ALIGNMENT - 1) div JMEM_ALIGNMENT * JMEM_ALIGNMENT;
                 m2 = free_insert m prev_p next_p block_p aligned_size
             in if \<not> jmem_heap_allocated_size h > 0 then stop Assertion_failed
                else
                  bind_res
                    (shrink_limit L
                       (h\<lparr>memory := m2,
                          jmem_heap_allocated_size := jmem_heap_allocated_size h - aligned_size,
                          jmem_heap_list_skip_p := prev_p\<rparr>))
                    (\<lambda>h2. if \<not> jmem_heap_limit h2 \<ge> jmem_heap_allocated_size h2
                           then stop Assertion_failed else ret h2)))"

subsection \<open>The pressure loop and the public allocation functions\<close>

text \<open>
  The severities of the absent \<^verbatim>\<open>jmem-allocator.h\<close>; the spec names them \<^verbatim>\<open>LOW\<close> and
  \<^verbatim>\<open>HIGH\<close>, in this order.
\<close>

datatype jmem_free_unused_memory_severity_t =
  JMEM_FREE_UNUSED_MEMORY_SEVERITY_LOW | JMEM_FREE_UNUSED_MEMORY_SEVERITY_HIGH

text \<open>
  The registry of reclamation callbacks is outside the sources at hand, so it is a
  parameter: a function of the severity that transforms the heap together with the state
  \<open>'w\<close> of the rest of the runtime (the callbacks may free blocks of this heap), and that
  may itself stop the process or diverge.
\<close>

type_synonym 'w callbacks =
  "jmem_free_unused_memory_severity_t \<Rightarrow> jmem_heap_state \<times> 'w \<Rightarrow> (jmem_heap_state \<times> 'w) res"

text \<open>
  Modelled from the spec: \<^verbatim>\<open>jmem_run_free_unused_memory_callbacks\<close> (the spec's
  \<^verbatim>\<open>run_reclamation(severity)\<close>) ``invokes registered callbacks synchronously''.
\<close>

definition jmem_run_free_unused_memory_callbacks ::
  "'w callbacks \<Rightarrow> jmem_free_unused_memory_severity_t \<Rightarrow> jmem_heap_state \<times> 'w
     \<Rightarrow> (jmem_heap_state \<times> 'w) res" where
  "jmem_run_free_unused_memory_callbacks cb severity hw = cb severity hw"

text \<open>
  The loop \<^verbatim>\<open>for (severity = LOW; severity <= HIGH; severity++)\<close> over the severities
  still to try; leaving it without a block returns \<open>NULL\<close>.
\<close>

fun gc_retry_loop ::
  "jmem_config \<Rightarrow> 'w callbacks \<Rightarrow> u32 \<Rightarrow> jmem_free_unused_memory_severity_t list
     \<Rightarrow> jmem_heap_state \<times> 'w \<Rightarrow> (u32 \<times> jmem_heap_state \<times> 'w) res" where
  "gc_retry_loop L cb sz [] (h, w) = ret (NULL, h, w)"
| "gc_retry_loop L cb sz (severity # rest) (h, w) =
     bind_res (jmem_run_free_unused_memory_callbacks cb severity (h, w))
       (\<lambda>(h1, w1).
          bind_res (jmem_heap_alloc_block_internal L sz h1)
            (\<lambda>(data_space_p, h2).
               if data_space_p \<noteq> NULL then ret (data_space_p, h2, w1)
               else gc_retry_loop L cb sz rest (h2, w1)))"

definition jmem_heap_gc_and_alloc_block ::
  "jmem_config \<Rightarrow> 'w callbacks \<Rightarrow> u32 \<Rightarrow> jmem_heap_state \<times> 'w
     \<Rightarrow> (u32 \<times> jmem_heap_state \<times> 'w) res" where
  "jmem_heap_gc_and_alloc_block L cb sz hw =
     bind_res
       (if jmem_heap_allocated_size (fst hw) + sz \<ge> jmem_heap_limit (fst hw)
        then jmem_run_free_unused_memory_callbacks cb JMEM_FREE_UNUSED_MEMORY_SEVERITY_LOW hw
        else ret hw)
       (\<lambda>(h0, w0).
          bind_res (jmem_heap_alloc_block_internal L sz h0)
            (\<lambda>(data_space_p, h1).
               if data_space_p \<noteq> NULL then ret (data_space_p, h1, w0)
               else gc_retry_loop L cb sz
                      [JMEM_FREE_UNUSED_MEMORY_SEVERITY_LOW, JMEM_FREE_UNUSED_MEMORY_SEVERITY_HIGH]
                      (h1, w0)))"

definition jmem_heap_alloc_block ::
  "jmem_config \<Rightarrow> 'w callbacks \<Rightarrow> u32 \<Rightarrow> jmem_heap_state \<times> 'w
     \<Rightarrow> (u32 \<times> jmem_heap_state \<times> 'w) res" where
  "jmem_heap_alloc_block L cb sz hw =
     (if sz = 0 then ret (NULL, hw)
      else
        bind_res (jmem_heap_gc_and_alloc_block L cb sz hw)
          (\<lambda>(data_space_p, hw1).
             if data_space_p \<noteq> NULL then ret (data_space_p, hw1)
             else stop ERR_OUT_OF_MEMORY))"

definition jmem_heap_alloc_block_null_on_error ::
  "jmem_config \<Rightarrow> 'w callbacks \<Rightarrow> u32 \<Rightarrow> jmem_heap_state \<times> 'w
     \<Rightarrow> (u32 \<times> jmem_heap_state \<times> 'w) res" where
  "jmem_heap_alloc_block_null_on_error L cb sz hw =
     (if sz = 0 then ret (NULL, hw)
      else jmem_heap_gc_and_alloc_block L cb sz hw)"

text \<open>
  \<^verbatim>\<open>jmem_heap_alloc_block_store_size\<close> adds \<^verbatim>\<open>sizeof (jmem_heap_free_t) = 8\<close> to the size,
  stores the sum in the \<^verbatim>\<open>size\<close> field of the block (byte offset 4) and returns
  \<^verbatim>\<open>data_space_p + 1\<close>, the address 8 bytes behind the start of the block. It does not
  test the pointer it stores through.
\<close>

definition jmem_heap_alloc_block_store_size ::
  "jmem_config \<Rightarrow> 'w callbacks \<Rightarrow> u32 \<Rightarrow> jmem_heap_state \<times> 'w
     \<Rightarrow> (u32 \<times> jmem_heap_state \<times> 'w) res" where
  "jmem_heap_alloc_block_store_size L cb sz hw =
     (if sz = 0 then ret (NULL, hw)
      else
        let sz' = sz + 8
        in bind_res (jmem_heap_alloc_block L cb sz' hw)
             (\<lambda>(data_space_p, h, w).
                if data_space_p = NULL then stop Null_dereference
                else ret (data_space_p + 8,
                          h\<lparr>memory := (memory h)(data_space_p + 4 := sz')\<rparr>, w)))"

definition jmem_heap_free_block_size_stored ::
  "jmem_config \<Rightarrow> u32 \<Rightarrow> jmem_heap_state \<Rightarrow> jmem_heap_state res" where
  "jmem_heap_free_block_size_stored L ptr h =
     (let original_p = ptr - 8
      in if original_p + 8 \<noteq> ptr then stop Assertion_failed
         else jmem_heap_free_block L original_p (size_of (memory h) original_p) h)"

subsection \<open>Compressed pointers\<close>

definition jmem_heap_compress_pointer :: "jmem_config \<Rightarrow> u32 \<Rightarrow> u32 res" where
  "jmem_heap_compress_pointer L pointer_p =
     (if \<not> pointer_p \<noteq> NULL then stop Assertion_failed
      else if \<not> jmem_is_heap_pointer L pointer_p then stop Assertion_failed
      else
        let int_ptr = pointer_p;
            heap_start = heap_addr L
        in if \<not> int_ptr mod JMEM_ALIGNMENT = 0 then stop Assertion_failed
           else
             let int_ptr1 = int_ptr - heap_start;
                 int_ptr2 = drop_bit JMEM_ALIGNMENT_LOG int_ptr1
             in if \<not> (int_ptr2 AND NOT (push_bit (JMEM_HEAP_OFFSET_LOG L) 1 - 1)) = 0
                then stop Assertion_failed
                else if \<not> int_ptr2 \<noteq> JMEM_CP_NULL then stop Assertion_failed
                else ret int_ptr2)"

definition jmem_heap_decompress_pointer :: "jmem_config \<Rightarrow> u32 \<Rightarrow> u32 res" where
  "jmem_heap_decompress_pointer L compressed_pointer =
     (if \<not> compressed_pointer \<noteq> JMEM_CP_NULL then stop Assertion_failed
      else
        let int_ptr = compressed_pointer;
            heap_start = heap_addr L;
            int_ptr1 = push_bit JMEM_ALIGNMENT_LOG int_ptr;
            int_ptr2 = int_ptr1 + heap_start
        in if \<not> jmem_is_heap_pointer L int_ptr2 then stop Assertion_failed
           else ret int_ptr2)"

declare grow_limit.simps [code]
declare alloc_walk.simps [code]
declare free_walk.simps [code]
declare shrink_limit.simps [code]

section \<open>Well-formed configurations\<close>

text \<open>
  What the build guarantees about the configuration: the object \<^verbatim>\<open>jmem_heap\<close> is aligned to
  \<^verbatim>\<open>JMEM_ALIGNMENT\<close> (it has a member with that alignment; \<^verbatim>\<open>jmem_heap_init\<close> asserts it
  of \<^verbatim>\<open>area\<close>), it lies inside the address space together with its one-past-the-end
  address, its size is a multiple of the alignment and leaves room for at least one
  region, the limit step is positive and small enough for the limit not to wrap around,
  and the static assertion \<^verbatim>\<open>(1u << JMEM_HEAP_OFFSET_LOG) >= JMEM_HEAP_SIZE\<close> holds.
\<close>

definition layout_ok :: "jmem_config \<Rightarrow> bool" where
  "layout_ok L \<longleftrightarrow>
     8 dvd unat (heap_addr L) \<and> 8 dvd unat (JMEM_HEAP_SIZE L) \<and> 16 \<le> unat (JMEM_HEAP_SIZE L)
     \<and> unat (heap_addr L) + unat (JMEM_HEAP_SIZE L) < 2 ^ 32
     \<and> 0 < unat (CONFIG_MEM_HEAP_DESIRED_LIMIT L)
     \<and> unat (JMEM_HEAP_SIZE L) + unat (CONFIG_MEM_HEAP_DESIRED_LIMIT L) < 2 ^ 32
     \<and> JMEM_HEAP_OFFSET_LOG L < 32
     \<and> unat (JMEM_HEAP_SIZE L) \<le> 2 ^ JMEM_HEAP_OFFSET_LOG L"

section \<open>The free list as a list of regions\<close>

text \<open>
  A chain of free nodes in memory: \<open>lseg m p xs q\<close> holds when following
  \<^verbatim>\<open>next_offset\<close> from \<open>p\<close> visits exactly the nodes of \<open>xs\<close>, each given as its
  address and the content of its \<^verbatim>\<open>size\<close> field, and arrives at \<open>q\<close>.
\<close>

fun lseg :: "memory \<Rightarrow> u32 \<Rightarrow> (u32 \<times> u32) list \<Rightarrow> u32 \<Rightarrow> bool" where
  "lseg m p [] q \<longleftrightarrow> p = q"
| "lseg m p ((a, sz) # xs) q \<longleftrightarrow>
     p = a \<and> a \<noteq> JMEM_HEAP_END_OF_LIST \<and> size_of m a = sz \<and> lseg m (next_offset_of m a) xs q"

text \<open>The free list of a heap: the chain from the sentinel's successor to the end marker.\<close>

definition free_list :: "jmem_config \<Rightarrow> jmem_heap_state \<Rightarrow> (u32 \<times> u32) list \<Rightarrow> bool" where
  "free_list L h xs \<longleftrightarrow>
     lseg (memory h) (next_offset_of (memory h) (first_p L)) xs JMEM_HEAP_END_OF_LIST"

definition free_sum :: "(u32 \<times> u32) list \<Rightarrow> nat" where
  "free_sum xs = sum_list (map (\<lambda>(a, sz). unat sz) xs)"

text \<open>
  Regions in ascending address order between \<open>lo\<close> and \<open>hi\<close>, aligned, with aligned
  sizes, and each starting strictly behind the end of the one before.
\<close>

fun regions :: "nat \<Rightarrow> (u32 \<times> u32) list \<Rightarrow> nat \<Rightarrow> bool" where
  "regions lo [] hi \<longleftrightarrow> True"
| "regions lo ((a, sz) # xs) hi \<longleftrightarrow>
     lo \<le> unat a \<and> 8 dvd unat a \<and> 8 dvd unat sz \<and> unat a + unat sz \<le> hi
     \<and> regions (Suc (unat a + unat sz)) xs hi"

text \<open>Adjacent nodes of the list do not touch: the end of one is strictly below the next.\<close>

fun no_touching :: "(u32 \<times> u32) list \<Rightarrow> bool" where
  "no_touching ((a, sa) # (b, sb) # xs) \<longleftrightarrow>
     unat a + unat sa < unat b \<and> no_touching ((b, sb) # xs)"
| "no_touching xs \<longleftrightarrow> True"

text \<open>
  The consistency condition of the heap, for the free list \<open>xs\<close>: the sentinel (of size
  0) followed by \<open>xs\<close> is a chain to the end marker, in ascending order inside the object
  \<^verbatim>\<open>jmem_heap\<close>; free regions are not empty; the allocated size and the free sizes add up
  to the area; the skip pointer is the sentinel, a free node or the end marker; the limit
  is not below the allocated size.
\<close>

definition heap_inv :: "jmem_config \<Rightarrow> jmem_heap_state \<Rightarrow> (u32 \<times> u32) list \<Rightarrow> bool" where
  "heap_inv L h xs \<longleftrightarrow>
     layout_ok L
     \<and> lseg (memory h) (first_p L) ((first_p L, 0) # xs) JMEM_HEAP_END_OF_LIST
     \<and> regions (unat (first_p L)) ((first_p L, 0) # xs)
          (unat (heap_addr L) + unat (JMEM_HEAP_SIZE L))
     \<and> (\<forall>(a, sz) \<in> set xs. 0 < unat sz)
     \<and> unat (jmem_heap_allocated_size h) + free_sum xs = unat (JMEM_HEAP_AREA_SIZE L)
     \<and> jmem_heap_list_skip_p h
           \<in> insert (first_p L) (insert JMEM_HEAP_END_OF_LIST (fst ` set xs))
     \<and> jmem_heap_allocated_size h \<le> jmem_heap_limit h"

text \<open>
  A block that may be freed: \<open>sz > 0\<close> bytes at the aligned address \<open>p\<close>, lying with its
  size rounded up to the alignment inside the area and apart from every free region.
\<close>

definition round_up :: "nat \<Rightarrow> nat" where
  "round_up n = (n + 7) div 8 * 8"

definition allocated_block :: "jmem_config \<Rightarrow> (u32 \<times> u32) list \<Rightarrow> u32 \<Rightarrow> u32 \<Rightarrow> bool" where
  "allocated_block L xs p sz \<longleftrightarrow>
     0 < unat sz \<and> 8 dvd unat p \<and> unat (area L) \<le> unat p
     \<and> unat p + round_up (unat sz) \<le> unat (area L) + unat (JMEM_HEAP_AREA_SIZE L)
     \<and> (\<forall>(a, s) \<in> set xs. unat a + unat s \<le> unat p \<or> unat p + round_up (unat sz) \<le> unat a)"

text \<open>The memory cells that hold the headers of the nodes of a list.\<close>

definition cells :: "(u32 \<times> u32) list \<Rightarrow> u32 set" where
  "cells xs = (\<Union>(a, s) \<in> set xs. {a, a + 4})"

text \<open>
  The memory after a region at \<open>a\<close> has served a request of \<open>req\<close> bytes, \<open>pv\<close> being
  the node before it: an exact fit is unlinked, a larger region loses its front.
\<close>

definition carve :: "memory \<Rightarrow> u32 \<Rightarrow> u32 \<Rightarrow> u32 \<Rightarrow> memory" where
  "carve m pv a req =
     (if size_of m a > req
      then ((m(a + req + 4 := size_of m a - req))(a + req := next_offset_of m a))(pv := a + req)
      else m(pv := next_offset_of m a))"

text \<open>
  Freeing on the level of lists: a region absorbs the first region of the list behind it
  when it ends exactly there.
\<close>

fun merge_next :: "u32 \<times> u32 \<Rightarrow> (u32 \<times> u32) list \<Rightarrow> (u32 \<times> u32) list" where
  "merge_next (b, t) [] = [(b, t)]"
| "merge_next (b, t) ((c, v) # post) =
     (if b + t = c then (b, t + v) # post else (b, t) # (c, v) # post)"

text \<open>The lower bound for whatever follows a list of regions.\<close>

fun bound_after :: "nat \<Rightarrow> (u32 \<times> u32) list \<Rightarrow> nat" where
  "bound_after lo [] = lo"
| "bound_after lo ((a, s) # xs) = bound_after (Suc (unat a + unat s)) xs"

text \<open>
  The contract of the reclamation callbacks: whenever they return, they leave the heap
  consistent (they free blocks of this heap, and do not allocate from it).
\<close>

definition callbacks_ok :: "jmem_config \<Rightarrow> 'w callbacks \<Rightarrow> bool" where
  "callbacks_ok L cb \<longleftrightarrow>
     (\<forall>severity h w h' w' xs. heap_inv L h xs \<longrightarrow> cb severity (h, w) = ret (h', w')
        \<longrightarrow> (\<exists>xs'. heap_inv L h' xs'))"

text \<open>
  The states of the heap, together with the state of the rest of the runtime, that the
  public operations reach from initialisation when they are used as their contracts
  demand: blocks are freed with the size they were allocated with, the runtime writes
  only into allocated blocks, and the callbacks keep their contract. The sizes given to
  \<^verbatim>\<open>jmem_heap_alloc_block_store_size\<close> are those for which adding the header and rounding
  up do not wrap around.
\<close>

inductive reachable :: "jmem_config \<Rightarrow> jmem_heap_state \<times> 'w \<Rightarrow> bool" for L where
  reach_init:
    "layout_ok L \<Longrightarrow> jmem_heap_init L h0 = ret h \<Longrightarrow> reachable L (h, w)"
| reach_alloc:
    "reachable L (h, w) \<Longrightarrow> callbacks_ok L cb \<Longrightarrow>
       jmem_heap_alloc_block L cb sz (h, w) = ret (p, h', w') \<Longrightarrow> reachable L (h', w')"
| reach_alloc_null:
    "reachable L (h, w) \<Longrightarrow> callbacks_ok L cb \<Longrightarrow>
       jmem_heap_alloc_block_null_on_error L cb sz (h, w) = ret (p, h', w') \<Longrightarrow>
       reachable L (h', w')"
| reach_alloc_store_size:
    "reachable L (h, w) \<Longrightarrow> callbacks_ok L cb \<Longrightarrow> unat sz + 15 < 2 ^ 32 \<Longrightarrow>
       jmem_heap_alloc_block_store_size L cb sz (h, w) = ret (p, h', w') \<Longrightarrow>
       reachable L (h', w')"
| reach_free:
    "reachable L (h, w) \<Longrightarrow> free_list L h xs \<Longrightarrow> allocated_block L xs p sz \<Longrightarrow>
       jmem_heap_free_block L p sz h = ret h' \<Longrightarrow> reachable L (h', w)"
| reach_free_stored:
    "reachable L (h, w) \<Longrightarrow> free_list L h xs \<Longrightarrow>
       allocated_block L xs (p - 8) (size_of (memory h) (p - 8)) \<Longrightarrow>
       jmem_heap_free_block_size_stored L p h = ret h' \<Longrightarrow> reachable L (h', w)"
| reach_store:
    "reachable L (h, w) \<Longrightarrow> free_list L h xs \<Longrightarrow> allocated_block L xs p sz \<Longrightarrow>
       unat p \<le> unat x \<Longrightarrow> unat x < unat p + round_up (unat sz) \<Longrightarrow>
       reachable L (h\<lparr>memory := (memory h)(x := v)\<rparr>, w)"
| reach_world:
    "reachable L (h, w) \<Longrightarrow> reachable L (h, w')"

section \<open>Scenarios\<close>

text \<open>
  The memory before \<^verbatim>\<open>jmem_heap_init\<close>, a registry without callbacks, and a runner for a
  sequence of public operations on the heap that records the pointers the allocations
  return.
\<close>

definition zero_state :: jmem_heap_state where
  "zero_state = \<lparr>memory = (\<lambda>_. 0), jmem_heap_allocated_size = 0, jmem_heap_limit = 0,
     jmem_heap_list_skip_p = 0\<rparr>"

definition no_callbacks :: "unit callbacks" where
  "no_callbacks severity hw = ret hw"

datatype heap_op = Alloc u32 | Free u32 u32

fun run_ops :: "jmem_config \<Rightarrow> heap_op list \<Rightarrow> u32 list \<times> jmem_heap_state
    \<Rightarrow> (u32 list \<times> jmem_heap_state) res" where
  "run_ops L [] (ps, h) = ret (ps, h)"
| "run_ops L (Alloc sz # ops) (ps, h) =
     bind_res (jmem_heap_alloc_block_null_on_error L no_callbacks sz (h, ()))
       (\<lambda>(p, h', w). run_ops L ops (ps @ [p], h'))"
| "run_ops L (Free p sz # ops) (ps, h) =
     bind_res (jmem_heap_free_block L p sz h) (\<lambda>h'. run_ops L ops (ps, h'))"

definition run_from_init :: "jmem_config \<Rightarrow> heap_op list \<Rightarrow> (u32 list \<times> jmem_heap_state) res" where
  "run_from_init L ops = bind_res (jmem_heap_init L zero_state) (\<lambda>h. run_ops L ops ([], h))"

definition state_of :: "(u32 list \<times> jmem_heap_state) res \<Rightarrow> jmem_heap_state" where
  "state_of r = (case r of Some (Inr (ps, h)) \<Rightarrow> h | _ \<Rightarrow> zero_state)"

definition pointers_of :: "(u32 list \<times> jmem_heap_state) res \<Rightarrow> u32 list" where
  "pointers_of r = (case r of Some (Inr (ps, h)) \<Rightarrow> ps | _ \<Rightarrow> [])"

definition returns :: "'a res \<Rightarrow> bool" where
  "returns r = (case r of Some (Inr x) \<Rightarrow> True | _ \<Rightarrow> False)"

text \<open>
  The free list read back from memory, by at most \<open>n\<close> steps from \<open>p\<close>, and the check that
  every \<open>Free\<close> of a sequence of operations releases a block that is allocated when its
  turn comes.
\<close>

fun walk_list :: "memory \<Rightarrow> u32 \<Rightarrow> nat \<Rightarrow> (u32 \<times> u32) list option" where
  "walk_list m p 0 = None"
| "walk_list m p (Suc n) =
     (if p = JMEM_HEAP_END_OF_LIST then Some []
      else map_option (\<lambda>xs. (p, size_of m p) # xs) (walk_list m (next_offset_of m p) n))"

definition read_free_list :: "jmem_config \<Rightarrow> jmem_heap_state \<Rightarrow> (u32 \<times> u32) list option" where
  "read_free_list L h =
     walk_list (memory h) (next_offset_of (memory h) (first_p L)) (unat (JMEM_HEAP_SIZE L))"

fun frees_ok :: "jmem_config \<Rightarrow> heap_op list \<Rightarrow> jmem_heap_state \<Rightarrow> bool" where
  "frees_ok L [] h = True"
| "frees_ok L (Alloc sz # ops) h =
     (case jmem_heap_alloc_block_null_on_error L no_callbacks sz (h, ()) of
        Some (Inr (p, h', w)) \<Rightarrow> frees_ok L ops h'
      | _ \<Rightarrow> False)"
| "frees_ok L (Free p sz # ops) h =
     (case read_free_list L h of
        None \<Rightarrow> False
      | Some xs \<Rightarrow>
          allocated_block L xs p sz \<and>
          (case jmem_heap_free_block L p sz h of
             Some (Inr h') \<Rightarrow> frees_ok L ops h'
           | _ \<Rightarrow> False))"

definition valid_run :: "jmem_config \<Rightarrow> heap_op list \<Rightarrow> bool" where
  "valid_run L ops =
     (case jmem_heap_init L zero_state of Some (Inr h) \<Rightarrow> frees_ok L ops h | _ \<Rightarrow> False)"

text \<open>
  The registry of scenario S4: its state is the log of the severities the callbacks were run
  with and the block staged for release; the callback of severity \<open>HIGH\<close> frees that block.
\<close>

record s4_registry =
  callback_log :: "jmem_free_unused_memory_severity_t list"
  staged_block :: "(u32 \<times> u32) option"

fun s4_callbacks :: "jmem_config \<Rightarrow> s4_registry callbacks" where
  "s4_callbacks L JMEM_FREE_UNUSED_MEMORY_SEVERITY_LOW (h, w) =
     ret (h, w\<lparr>callback_log := callback_log w @ [JMEM_FREE_UNUSED_MEMORY_SEVERITY_LOW]\<rparr>)"
| "s4_callbacks L JMEM_FREE_UNUSED_MEMORY_SEVERITY_HIGH (h, w) =
     (case staged_block w of
        None \<Rightarrow>
          ret (h, w\<lparr>callback_log := callback_log w @ [JMEM_FREE_UNUSED_MEMORY_SEVERITY_HIGH]\<rparr>)
      | Some (p, sz) \<Rightarrow>
          bind_res (jmem_heap_free_block L p sz h)
            (\<lambda>h'. ret (h', w\<lparr>callback_log :=
                                 callback_log w @ [JMEM_FREE_UNUSED_MEMORY_SEVERITY_HIGH],
                               staged_block := None\<rparr>)))"

text \<open>
  The pressure loop is exhausted when the internal allocation fails at the first attempt,
  after the callbacks of severity \<open>LOW\<close> and after the callbacks of severity \<open>HIGH\<close>.
\<close>

definition pressure_loop_attempts ::
  "jmem_config \<Rightarrow> 'w callbacks \<Rightarrow> u32 \<Rightarrow> jmem_heap_state \<times> 'w \<Rightarrow> u32 list res" where
  "pressure_loop_attempts L cb sz hw =
     bind_res
       (if jmem_heap_allocated_size (fst hw) + sz \<ge> jmem_heap_limit (fst hw)
        then cb JMEM_FREE_UNUSED_MEMORY_SEVERITY_LOW hw else ret hw)
       (\<lambda>(h0, w0). bind_res (jmem_heap_alloc_block_internal L sz h0)
       (\<lambda>(p0, h1). if p0 \<noteq> NULL then ret [p0] else
          bind_res (cb JMEM_FREE_UNUSED_MEMORY_SEVERITY_LOW (h1, w0))
       (\<lambda>(h2, w2). bind_res (jmem_heap_alloc_block_internal L sz h2)
       (\<lambda>(p1, h3). if p1 \<noteq> NULL then ret [p0, p1] else
          bind_res (cb JMEM_FREE_UNUSED_MEMORY_SEVERITY_HIGH (h3, w2))
       (\<lambda>(h4, w4). bind_res (jmem_heap_alloc_block_internal L sz h4)
       (\<lambda>(p2, h5). ret [p0, p1, p2]))))))"

definition pressure_loop_exhausted ::
  "jmem_config \<Rightarrow> 'w callbacks \<Rightarrow> u32 \<Rightarrow> jmem_heap_state \<times> 'w \<Rightarrow> bool" where
  "pressure_loop_exhausted L cb sz hw \<longleftrightarrow>
     pressure_loop_attempts L cb sz hw = ret [NULL, NULL, NULL]"

text \<open>A small configuration on which the theorems below are exercised.\<close>

definition example_config :: jmem_config where
  "example_config = \<lparr>heap_addr = 0x20000000, JMEM_HEAP_SIZE = 72,
     CONFIG_MEM_HEAP_DESIRED_LIMIT = 16, JMEM_HEAP_OFFSET_LOG = 16\<rparr>"

section \<open>Word arithmetic without wrap-around\<close>

lemma unat_add_nowrap: "unat (a::u32) + unat b < 2 ^ 32 \<Longrightarrow> unat (a + b) = unat a + unat b"
  by (rule unat_add_lem [THEN iffD1]) simp

lemma unat_sub_nowrap: "unat (b::u32) \<le> unat a \<Longrightarrow> unat (a - b) = unat a - unat b"
  by (rule unat_sub) (simp add: word_le_nat_alt)

lemma unat_area: "layout_ok L \<Longrightarrow> unat (area L) = unat (heap_addr L) + 8"
  unfolding layout_ok_def area_def by (subst unat_add_nowrap) auto

lemma unat_area_size: "layout_ok L \<Longrightarrow> unat (JMEM_HEAP_AREA_SIZE L) = unat (JMEM_HEAP_SIZE L) - 8"
  unfolding layout_ok_def JMEM_HEAP_AREA_SIZE_def JMEM_ALIGNMENT_def
  by (subst unat_sub_nowrap) auto

lemma mod8_dvd: "((a::u32) mod 8 = 0) = (8 dvd unat a)"
  by (simp add: word_unat_eq_iff unat_mod dvd_eq_mod_eq_0)

lemma unat_drop3: "unat (drop_bit 3 (a::u32)) = unat a div 8"
  by (simp add: unat_drop_bit_eq drop_bit_eq_div unat_div)

lemma unat_push3: "unat a < 2 ^ 29 \<Longrightarrow> unat (push_bit 3 (a::u32)) = unat a * 8"
  apply (simp add: push_bit_eq_mult)
  apply (subst unat_mult_lem [THEN iffD1])
  apply simp_all
  done

lemma drop_push: "8 dvd unat (a::u32) \<Longrightarrow> push_bit 3 (drop_bit 3 a) = a"
  apply (rule word_unat_eq_iff [THEN iffD2])
  apply (subst unat_push3)
   apply (simp add: unat_drop3)
  using unsigned_less [of a, where 'a = nat] apply simp
  apply (simp add: unat_drop3)
  done

lemma maskz: "unat (u::u32) < 2 ^ n \<Longrightarrow> n < 32 \<Longrightarrow> u AND NOT (push_bit n 1 - 1) = 0"
proof -
  assume a: "unat u < 2 ^ n" and n: "n < 32"
  have "int (unat u) < int (2 ^ n)" using a by (simp only: of_nat_less_iff)
  then have "uint u < 2 ^ n" by (simp only: uint_nat of_nat_power of_nat_numeral)
  then have "u < 2 ^ n" using n by (simp add: word_2p_lem word_size)
  then have "u AND mask n = u" by (rule less_mask_eq)
  then have h: "u AND mask n = u" .
  have "u AND NOT (mask n) = (u AND mask n) AND NOT (mask n)" by (simp only: h)
  also have "\<dots> = u AND (mask n AND NOT (mask n))" by (simp only: and.assoc)
  also have "\<dots> = 0" by simp
  finally have "u AND NOT (mask n) = 0" .
  then show ?thesis by (simp add: push_bit_of_1 mask_eq_exp_minus_1)
qed

lemma round8: "unat (sz::u32) + 7 < 2 ^ 32 \<Longrightarrow> unat ((sz + 8 - 1) div 8 * 8) = (unat sz + 7) div 8 * 8"
proof -
  assume a: "unat sz + 7 < 2 ^ 32"
  have "sz + 8 - 1 = sz + 7" by simp
  moreover have "unat (sz + 7) = unat sz + 7" using a by (subst unat_add_nowrap) auto
  ultimately have b: "unat ((sz + 8 - 1) div 8) = (unat sz + 7) div 8" by (simp only: unat_div) simp
  have "unat ((sz + 8 - 1) div 8 * 8) = unat ((sz + 8 - 1) div 8) * unat (8::u32)"
    apply (rule unat_mult_lem [THEN iffD1]) using b a by simp
  then show ?thesis using b by simp
qed

lemma round8_dvd: "8 dvd unat (((sz::u32) + 8 - 1) div 8 * 8)"
proof -
  have b: "unat ((sz + 8 - 1) div 8) = unat (sz + 8 - 1) div 8" by (simp add: unat_div)
  have c: "unat (sz + 8 - 1) < 2 ^ 32" using unsigned_less [of "sz + 8 - 1", where 'a = nat] by simp
  have "unat ((sz + 8 - 1) div 8 * 8) = unat ((sz + 8 - 1) div 8) * unat (8::u32)"
    apply (rule unat_mult_lem [THEN iffD1]) using b c by simp
  then show ?thesis by simp
qed


lemma heap_pointer_nat:
  assumes "layout_ok L"
  shows "jmem_is_heap_pointer L p \<longleftrightarrow>
           unat (heap_addr L) + 8 \<le> unat p \<and> unat p \<le> unat (heap_addr L) + unat (JMEM_HEAP_SIZE L)"
proof -
  have a: "unat (area L) = unat (heap_addr L) + 8" using assms by (rule unat_area)
  have s: "unat (JMEM_HEAP_AREA_SIZE L) = unat (JMEM_HEAP_SIZE L) - 8" using assms by (rule unat_area_size)
  have "unat (area L) + unat (JMEM_HEAP_AREA_SIZE L) < 2 ^ 32"
    using assms a s unfolding layout_ok_def by simp
  then have e: "unat (area L + JMEM_HEAP_AREA_SIZE L) = unat (area L) + unat (JMEM_HEAP_AREA_SIZE L)"
    by (rule unat_add_nowrap)
  have "16 \<le> unat (JMEM_HEAP_SIZE L)" using assms unfolding layout_ok_def by simp
  then show ?thesis
    unfolding jmem_is_heap_pointer_def word_le_nat_alt e a s by auto
qed

lemma example_config_ok: "layout_ok example_config"
  by (simp add: layout_ok_def example_config_def)

section \<open>Heap pointers and compressed pointers\<close>

text \<open>
  Claim C10. For every pointer \<open>p\<close>, \<^verbatim>\<open>jmem_is_heap_pointer\<close> returns true exactly when
  \<open>area \<le> p \<le> area + JMEM_HEAP_AREA_SIZE\<close>, read as addresses (natural numbers): both
  bounds are inclusive, so the first byte of the area and the address one past its end
  are classified as heap pointers.
\<close>

theorem is_heap_pointer_inclusive_bounds:
  assumes "layout_ok L"
  shows "(jmem_is_heap_pointer L p \<longleftrightarrow>
            unat (area L) \<le> unat p \<and> unat p \<le> unat (area L) + unat (JMEM_HEAP_AREA_SIZE L))
         \<and> jmem_is_heap_pointer L (area L)
         \<and> jmem_is_heap_pointer L (area L + JMEM_HEAP_AREA_SIZE L)"
proof -
  have a: "unat (area L) = unat (heap_addr L) + 8" using assms by (rule unat_area)
  have s: "unat (JMEM_HEAP_AREA_SIZE L) = unat (JMEM_HEAP_SIZE L) - 8" using assms by (rule unat_area_size)
  have k: "16 \<le> unat (JMEM_HEAP_SIZE L)" using assms unfolding layout_ok_def by simp
  have "unat (area L) + unat (JMEM_HEAP_AREA_SIZE L) < 2 ^ 32"
    using assms a s unfolding layout_ok_def by simp
  then have e: "unat (area L + JMEM_HEAP_AREA_SIZE L) = unat (area L) + unat (JMEM_HEAP_AREA_SIZE L)"
    by (rule unat_add_nowrap)
  have 1: "jmem_is_heap_pointer L p \<longleftrightarrow>
            unat (area L) \<le> unat p \<and> unat p \<le> unat (area L) + unat (JMEM_HEAP_AREA_SIZE L)"
    unfolding heap_pointer_nat [OF assms] a s using k by auto
  have 2: "jmem_is_heap_pointer L (area L)"
    unfolding heap_pointer_nat [OF assms] a using k by simp
  have 3: "jmem_is_heap_pointer L (area L + JMEM_HEAP_AREA_SIZE L)"
    unfolding heap_pointer_nat [OF assms] e a s using k by simp
  from 1 2 3 show ?thesis by blast
qed

theorem is_heap_pointer_inclusive_bounds_witness:
  "layout_ok example_config
   \<and> jmem_is_heap_pointer example_config (area example_config + JMEM_HEAP_AREA_SIZE example_config)
   \<and> area example_config + JMEM_HEAP_AREA_SIZE example_config = 0x20000048
   \<and> \<not> jmem_is_heap_pointer example_config 0x20000049
   \<and> \<not> jmem_is_heap_pointer example_config 0x20000007"
proof -
  have a: "unat (area example_config) = 536870920"
    by (simp add: area_def example_config_def)
  have s: "unat (JMEM_HEAP_AREA_SIZE example_config) = 64"
    by (simp add: JMEM_HEAP_AREA_SIZE_def JMEM_ALIGNMENT_def example_config_def)
  have e: "area example_config + JMEM_HEAP_AREA_SIZE example_config = 0x20000048"
    by (simp add: area_def JMEM_HEAP_AREA_SIZE_def JMEM_ALIGNMENT_def example_config_def)
  have 1: "\<not> jmem_is_heap_pointer example_config 0x20000049"
    using is_heap_pointer_inclusive_bounds [OF example_config_ok, of "0x20000049"]
    by (simp add: a s)
  have 2: "\<not> jmem_is_heap_pointer example_config 0x20000007"
    using is_heap_pointer_inclusive_bounds [OF example_config_ok, of "0x20000007"]
    by (simp add: a s)
  show ?thesis
    using example_config_ok is_heap_pointer_inclusive_bounds [OF example_config_ok, of 0] e 1 2
    by simp
qed

text \<open>
  Claim C1. For every pointer \<open>p\<close> inside the heap region that is aligned to
  \<^verbatim>\<open>JMEM_ALIGNMENT\<close>, \<^verbatim>\<open>jmem_heap_compress_pointer\<close> passes all its assertions and
  returns a code that is not \<^verbatim>\<open>JMEM_CP_NULL\<close>, and \<^verbatim>\<open>jmem_heap_decompress_pointer\<close>
  of that code returns \<open>p\<close>. (The code is the offset from the start of the object
  \<^verbatim>\<open>jmem_heap\<close>, whose first 8 bytes are the sentinel, so the offset of a pointer into
  \<^verbatim>\<open>area\<close> is at least 8.)
\<close>

theorem compress_decompress_roundtrip:
  assumes L: "layout_ok L" and hp: "jmem_is_heap_pointer L p" and al: "p mod JMEM_ALIGNMENT = 0"
  shows "\<exists>u. jmem_heap_compress_pointer L p = ret u \<and> u \<noteq> JMEM_CP_NULL
              \<and> jmem_heap_decompress_pointer L u = ret p"
proof -
  let ?hs = "heap_addr L"
  let ?d = "p - ?hs"
  let ?u = "drop_bit JMEM_ALIGNMENT_LOG ?d"
  have lo: "unat ?hs + 8 \<le> unat p" and hi: "unat p \<le> unat ?hs + unat (JMEM_HEAP_SIZE L)"
    using hp heap_pointer_nat [OF L] by auto
  have d: "unat ?d = unat p - unat ?hs" using lo by (intro unat_sub_nowrap) simp
  have p8: "8 dvd unat p" using al by (simp add: JMEM_ALIGNMENT_def mod8_dvd)
  have h8: "8 dvd unat ?hs" using L by (simp add: layout_ok_def)
  have d8: "8 dvd unat ?d" unfolding d using p8 h8 by (rule dvd_diff_nat)
  have u: "unat ?u = unat ?d div 8" by (simp add: JMEM_ALIGNMENT_LOG_def unat_drop3)
  have dge: "8 \<le> unat ?d" and dle: "unat ?d \<le> unat (JMEM_HEAP_SIZE L)"
    unfolding d using lo hi by auto
  have "1 \<le> unat ?u" unfolding u using dge by (simp add: Suc_le_eq div_greater_zero_iff)
  then have unz: "?u \<noteq> 0" by (auto simp: unat_eq_zero dest!: arg_cong [where f = unat])
  have pnz: "p \<noteq> 0" using lo by (auto dest!: arg_cong [where f = unat])
  have "unat ?u < unat (JMEM_HEAP_SIZE L)" unfolding u using dge dle by (simp add: div_less_dividend)
  then have "unat ?u < 2 ^ JMEM_HEAP_OFFSET_LOG L" using L by (simp add: layout_ok_def)
  then have m: "?u AND NOT (push_bit (JMEM_HEAP_OFFSET_LOG L) 1 - 1) = 0"
    using L by (intro maskz) (simp_all add: layout_ok_def)
  have rt: "push_bit JMEM_ALIGNMENT_LOG ?u + ?hs = p"
    using drop_push [OF d8] by (simp add: JMEM_ALIGNMENT_LOG_def)
  have c: "jmem_heap_compress_pointer L p = ret ?u"
    unfolding jmem_heap_compress_pointer_def Let_def using pnz hp al m unz
    by (simp add: NULL_def JMEM_CP_NULL_def)
  have dc: "jmem_heap_decompress_pointer L ?u = ret p"
    unfolding jmem_heap_decompress_pointer_def Let_def rt using unz hp
    by (simp add: JMEM_CP_NULL_def)
  from c dc unz show ?thesis by (auto simp: JMEM_CP_NULL_def)
qed

theorem compress_decompress_roundtrip_witness:
  "layout_ok example_config \<and> jmem_is_heap_pointer example_config 0x20000010
   \<and> (0x20000010 :: u32) mod JMEM_ALIGNMENT = 0
   \<and> jmem_heap_compress_pointer example_config 0x20000010 = ret 2
   \<and> (\<exists>u. jmem_heap_compress_pointer example_config 0x20000010 = ret u \<and> u \<noteq> JMEM_CP_NULL
          \<and> jmem_heap_decompress_pointer example_config u = ret 0x20000010)"
proof -
  have 1: "jmem_is_heap_pointer example_config 0x20000010"
    by (simp add: jmem_is_heap_pointer_def area_def JMEM_HEAP_AREA_SIZE_def JMEM_ALIGNMENT_def
        example_config_def)
  have 2: "(0x20000010 :: u32) mod JMEM_ALIGNMENT = 0"
    by (simp add: JMEM_ALIGNMENT_def)
  have 3: "jmem_heap_compress_pointer example_config 0x20000010 = ret 2"
    using 1 by (simp add: jmem_heap_compress_pointer_def NULL_def JMEM_ALIGNMENT_def
        JMEM_ALIGNMENT_LOG_def JMEM_CP_NULL_def example_config_def drop_bit_eq_div)
  show ?thesis
    using example_config_ok 1 2 3 compress_decompress_roundtrip [OF example_config_ok 1 2]
    by simp
qed

section \<open>Chains of nodes and ordered regions\<close>

lemma lseg_append: "lseg m p (xs @ ys) q \<longleftrightarrow> (\<exists>r. lseg m p xs r \<and> lseg m r ys q)"
  by (induction xs arbitrary: p) auto

lemma cells_simps [simp]: "cells [] = {}" "cells ((a, s) # xs) = {a, a + 4} \<union> cells xs"
  "cells (xs @ ys) = cells xs \<union> cells ys"
  by (auto simp: cells_def)

lemma lseg_frame: "x \<notin> cells xs \<Longrightarrow> lseg (m(x := v)) p xs q = lseg m p xs q"
  by (induction xs arbitrary: p) auto

lemma lseg_unique: "lseg m p xs q \<Longrightarrow> lseg m p ys q \<Longrightarrow> q = JMEM_HEAP_END_OF_LIST \<Longrightarrow> xs = ys"
proof (induction xs arbitrary: p ys)
  case Nil
  then show ?case by (cases ys) auto
next
  case (Cons x xs)
  then show ?case by (cases ys; cases x) auto
qed

lemma regions_mono: "regions lo xs hi \<Longrightarrow> lo' \<le> lo \<Longrightarrow> regions lo' xs hi"
  by (cases xs) auto

lemma regions_mem:
  "regions lo xs hi \<Longrightarrow> (a, s) \<in> set xs \<Longrightarrow>
     lo \<le> unat a \<and> 8 dvd unat a \<and> 8 dvd unat s \<and> unat a + unat s \<le> hi"
proof (induction xs arbitrary: lo)
  case Nil
  then show ?case by simp
next
  case (Cons x xs)
  obtain b t where x: "x = (b, t)" by (cases x)
  show ?case
  proof (cases "(a, s) = x")
    case True
    then show ?thesis using Cons.prems x by auto
  next
    case False
    then have "(a, s) \<in> set xs" using Cons.prems by auto
    moreover have "regions (Suc (unat b + unat t)) xs hi" using Cons.prems x by simp
    ultimately have "Suc (unat b + unat t) \<le> unat a \<and> 8 dvd unat a \<and> 8 dvd unat s \<and> unat a + unat s \<le> hi"
      using Cons.IH by blast
    moreover have "lo \<le> unat b" using Cons.prems x by simp
    ultimately show ?thesis by auto
  qed
qed

lemma regions_append:
  "regions lo (xs @ (a, s) # ys) hi \<longleftrightarrow>
     regions lo (xs @ [(a, s)]) hi \<and> regions (Suc (unat a + unat s)) ys hi"
  by (induction xs arbitrary: lo) auto

lemma regions_snoc_below:
  "regions lo (xs @ [(a, s)]) hi \<Longrightarrow> (b, t) \<in> set xs \<Longrightarrow> unat b + unat t < unat a"
proof (induction xs arbitrary: lo)
  case Nil
  then show ?case by simp
next
  case (Cons x xs)
  obtain c u where x: "x = (c, u)" by (cases x)
  have r: "regions (Suc (unat c + unat u)) (xs @ [(a, s)]) hi" using Cons.prems x by simp
  show ?case
  proof (cases "(b, t) = x")
    case True
    have "Suc (unat c + unat u) \<le> unat a"
      using regions_mem [OF r, of a s] by simp
    then show ?thesis using True x by simp
  next
    case False
    then have "(b, t) \<in> set xs" using Cons.prems by auto
    then show ?thesis using Cons.IH [OF r] by simp
  qed
qed

lemma regions_prefix: "regions lo (xs @ ys) hi \<Longrightarrow> regions lo xs hi"
  by (induction xs arbitrary: lo) auto

lemma regions_no_touching: "regions lo xs hi \<Longrightarrow> no_touching xs"
  by (induction xs arbitrary: lo rule: no_touching.induct) auto

lemma free_sum_simps [simp]: "free_sum [] = 0" "free_sum ((a, s) # xs) = unat s + free_sum xs"
  "free_sum (xs @ ys) = free_sum xs + free_sum ys"
  by (simp_all add: free_sum_def)

section \<open>The limit loops return\<close>

lemma grow_limit_returns:
  assumes "0 < unat (CONFIG_MEM_HEAP_DESIRED_LIMIT L)"
    and "unat (jmem_heap_allocated_size h) + unat (CONFIG_MEM_HEAP_DESIRED_LIMIT L) < 2 ^ 32"
  shows "\<exists>l. grow_limit L h = ret (h\<lparr>jmem_heap_limit := l\<rparr>) \<and> jmem_heap_allocated_size h < l
             \<and> (jmem_heap_allocated_size h < jmem_heap_limit h \<longrightarrow> l = jmem_heap_limit h)"
  using assms
proof (induction "Suc (unat (jmem_heap_allocated_size h)) - unat (jmem_heap_limit h)" arbitrary: h rule: less_induct)
  case less
  let ?D = "CONFIG_MEM_HEAP_DESIRED_LIMIT L"
  show ?case
  proof (cases "jmem_heap_limit h \<le> jmem_heap_allocated_size h")
    case False
    then have "grow_limit L h = ret h" by (subst grow_limit.simps) (simp add: ret_def)
    moreover have "h\<lparr>jmem_heap_limit := jmem_heap_limit h\<rparr> = h" by simp
    ultimately show ?thesis using False by (metis not_le)
  next
    case True
    let ?h = "h\<lparr>jmem_heap_limit := jmem_heap_limit h + ?D\<rparr>"
    have le: "unat (jmem_heap_limit h) \<le> unat (jmem_heap_allocated_size h)"
      using True by (simp add: word_le_nat_alt)
    have u: "unat (jmem_heap_limit h + ?D) = unat (jmem_heap_limit h) + unat ?D"
      using le less.prems by (intro unat_add_nowrap) simp
    have "\<exists>l. grow_limit L ?h = ret (?h\<lparr>jmem_heap_limit := l\<rparr>) \<and> jmem_heap_allocated_size ?h < l
             \<and> (jmem_heap_allocated_size ?h < jmem_heap_limit ?h \<longrightarrow> l = jmem_heap_limit ?h)"
      apply (rule less.hyps)
      using less.prems le u by simp_all
    then obtain l where l: "grow_limit L ?h = ret (?h\<lparr>jmem_heap_limit := l\<rparr>)"
      "jmem_heap_allocated_size h < l" by auto
    have "grow_limit L h = grow_limit L ?h" using True by (subst grow_limit.simps) simp
    then show ?thesis using l True by (auto simp: not_less [symmetric])
  qed
qed

lemma shrink_limit_returns:
  assumes "0 < unat (CONFIG_MEM_HEAP_DESIRED_LIMIT L)"
    and "unat (jmem_heap_allocated_size h) + unat (CONFIG_MEM_HEAP_DESIRED_LIMIT L) < 2 ^ 32"
    and "jmem_heap_allocated_size h \<le> jmem_heap_limit h"
  shows "\<exists>l. shrink_limit L h = ret (h\<lparr>jmem_heap_limit := l\<rparr>) \<and> jmem_heap_allocated_size h \<le> l"
  using assms
proof (induction "unat (jmem_heap_limit h)" arbitrary: h rule: less_induct)
  case less
  let ?D = "CONFIG_MEM_HEAP_DESIRED_LIMIT L"
  have s: "unat (jmem_heap_allocated_size h + ?D) = unat (jmem_heap_allocated_size h) + unat ?D"
    using less.prems by (intro unat_add_nowrap) simp
  show ?case
  proof (cases "jmem_heap_allocated_size h + ?D \<le> jmem_heap_limit h")
    case False
    then have "shrink_limit L h = ret h" by (subst shrink_limit.simps) (simp add: ret_def)
    moreover have "h\<lparr>jmem_heap_limit := jmem_heap_limit h\<rparr> = h" by simp
    ultimately show ?thesis using less.prems by metis
  next
    case True
    let ?h = "h\<lparr>jmem_heap_limit := jmem_heap_limit h - ?D\<rparr>"
    have le: "unat (jmem_heap_allocated_size h) + unat ?D \<le> unat (jmem_heap_limit h)"
      using True s by (simp add: word_le_nat_alt)
    have u: "unat (jmem_heap_limit h - ?D) = unat (jmem_heap_limit h) - unat ?D"
      using le by (intro unat_sub_nowrap) simp
    have "\<exists>l. shrink_limit L ?h = ret (?h\<lparr>jmem_heap_limit := l\<rparr>) \<and> jmem_heap_allocated_size ?h \<le> l"
      apply (rule less.hyps)
      using less.prems le u by (simp_all add: word_le_nat_alt)
    then obtain l where l: "shrink_limit L ?h = ret (?h\<lparr>jmem_heap_limit := l\<rparr>)"
      "jmem_heap_allocated_size h \<le> l" by auto
    have "shrink_limit L h = shrink_limit L ?h" using True by (subst shrink_limit.simps) simp
    then show ?thesis using l by auto
  qed
qed

section \<open>The allocation walk and the fast path\<close>

lemma lseg_next_ok:
  "lseg m q xs JMEM_HEAP_END_OF_LIST \<Longrightarrow> \<forall>(b, s) \<in> set xs. jmem_is_heap_pointer L b \<Longrightarrow>
     jmem_is_heap_pointer L q \<or> q = JMEM_HEAP_END_OF_LIST"
  by (cases xs) auto

lemma alloc_walk_none:
  assumes "lseg (memory h) cur xs JMEM_HEAP_END_OF_LIST"
    and "\<forall>(b, s) \<in> set xs. s < req \<and> jmem_is_heap_pointer L b"
  shows "alloc_walk L req prev cur h = ret (NULL, h)"
  using assms
proof (induction xs arbitrary: prev cur)
  case Nil
  then show ?case by (subst alloc_walk.simps) (simp add: ret_def)
next
  case (Cons x xs)
  obtain a sz where x: "x = (a, sz)" by (cases x)
  have c: "cur = a" "a \<noteq> JMEM_HEAP_END_OF_LIST" "memory h (a + 4) = sz"
    and t: "lseg (memory h) (memory h a) xs JMEM_HEAP_END_OF_LIST"
    using Cons.prems(1) x by auto
  have hp: "jmem_is_heap_pointer L a" and small: "sz < req"
    and rest: "\<forall>(b, s) \<in> set xs. s < req \<and> jmem_is_heap_pointer L b"
    using Cons.prems(2) x by auto
  have nx: "jmem_is_heap_pointer L (memory h a) \<or> memory h a = JMEM_HEAP_END_OF_LIST"
    using t rest by (intro lseg_next_ok [of _ _ xs]) auto
  have "alloc_walk L req prev cur h = alloc_walk L req a (memory h a) h"
    using c hp small nx by (subst alloc_walk.simps) (auto simp: Let_def not_le [symmetric])
  then show ?case using Cons.IH [OF t rest] by simp
qed

lemma alloc_walk_found:
  assumes "lseg (memory h) cur (pre @ (a, sz) # post) JMEM_HEAP_END_OF_LIST"
    and "\<forall>(b, s) \<in> set pre. s < req"
    and "req \<le> sz"
    and "\<forall>(b, s) \<in> set (pre @ (a, sz) # post). jmem_is_heap_pointer L b"
  shows "alloc_walk L req prev cur h =
           ret (a, h\<lparr>memory := carve (memory h) (last (prev # map fst pre)) a req,
                     jmem_heap_allocated_size := jmem_heap_allocated_size h + req,
                     jmem_heap_list_skip_p := last (prev # map fst pre)\<rparr>)"
  using assms
proof (induction pre arbitrary: prev cur)
  case Nil
  have c: "cur = a" "a \<noteq> JMEM_HEAP_END_OF_LIST" "memory h (a + 4) = sz"
    and t: "lseg (memory h) (memory h a) post JMEM_HEAP_END_OF_LIST"
    using Nil.prems(1) by auto
  have hp: "jmem_is_heap_pointer L a" using Nil.prems(4) by simp
  have nx: "jmem_is_heap_pointer L (memory h a) \<or> memory h a = JMEM_HEAP_END_OF_LIST"
    using t Nil.prems(4) by (intro lseg_next_ok [of _ _ post]) auto
  show ?case
    using c hp nx Nil.prems(3)
    by (subst alloc_walk.simps) (auto simp: Let_def ret_def carve_def)
next
  case (Cons x pre)
  obtain b s where x: "x = (b, s)" by (cases x)
  have c: "cur = b" "b \<noteq> JMEM_HEAP_END_OF_LIST" "memory h (b + 4) = s"
    and t: "lseg (memory h) (memory h b) (pre @ (a, sz) # post) JMEM_HEAP_END_OF_LIST"
    using Cons.prems(1) x by auto
  have hp: "jmem_is_heap_pointer L b" and small: "s < req"
    and rest: "\<forall>(b, s) \<in> set pre. s < req"
    and hps: "\<forall>(b, s) \<in> set (pre @ (a, sz) # post). jmem_is_heap_pointer L b"
    using Cons.prems(2,4) x by auto
  have nx: "jmem_is_heap_pointer L (memory h b) \<or> memory h b = JMEM_HEAP_END_OF_LIST"
    using t hps by (intro lseg_next_ok [of _ _ "pre @ (a, sz) # post"]) auto
  have "alloc_walk L req prev cur h = alloc_walk L req b (memory h b) h"
    using c hp small nx by (subst alloc_walk.simps) (auto simp: Let_def not_le [symmetric])
  moreover have "last (prev # map fst (x # pre)) = last (b # map fst pre)" using x by simp
  ultimately show ?case using Cons.IH [OF t rest Cons.prems(3) hps, of b] by simp
qed

lemma alloc_fast_path_eq:
  assumes "lseg (memory h) (memory h (first_p L)) ((a, sz) # post) JMEM_HEAP_END_OF_LIST"
    and "jmem_is_heap_pointer L a" and "8 \<le> unat sz"
  shows "alloc_fast_path L h =
           ret (a, h\<lparr>memory := carve (memory h) (first_p L) a JMEM_ALIGNMENT,
                     jmem_heap_allocated_size := jmem_heap_allocated_size h + JMEM_ALIGNMENT,
                     jmem_heap_list_skip_p :=
                       (if a = jmem_heap_list_skip_p h
                        then carve (memory h) (first_p L) a JMEM_ALIGNMENT (first_p L)
                        else jmem_heap_list_skip_p h)\<rparr>)"
proof -
  have c: "memory h (first_p L) = a" "memory h (a + 4) = sz" using assms(1) by auto
  have ge: "8 \<le> sz" using assms(3) by (simp add: word_le_nat_alt)
  have ne: "a \<noteq> a + 12" by simp
  show ?thesis
  proof (cases "sz = 8")
    case True
    have cv: "carve (memory h) (first_p L) a 8 = (memory h)(first_p L := memory h a)"
      using c True by (simp add: carve_def)
    show ?thesis
      unfolding JMEM_ALIGNMENT_def cv
      using c assms(2) True
      by (simp add: alloc_fast_path_def Let_def JMEM_ALIGNMENT_def ret_def)
  next
    case False
    then have gt: "8 < sz" using ge by simp
    have cv: "carve (memory h) (first_p L) a 8 =
        ((memory h)(a + 8 + 4 := memory h (a + 4) - 8, a + 8 := memory h a))(first_p L := a + 8)"
      using c gt by (simp add: carve_def)
    show ?thesis
      unfolding JMEM_ALIGNMENT_def cv
      using c assms(2) False gt ne
      by (simp add: alloc_fast_path_def Let_def JMEM_ALIGNMENT_def ret_def add.assoc)
  qed
qed

section \<open>Carving a region out of the free list\<close>

lemma unat_END: "unat JMEM_HEAP_END_OF_LIST = 4294967295"
  by (simp add: JMEM_HEAP_END_OF_LIST_def unsigned_minus_1_eq_mask mask_eq_exp_minus_1)

lemma aligned_not_END: "8 dvd unat (b::u32) \<Longrightarrow> b \<noteq> JMEM_HEAP_END_OF_LIST"
  using unat_END by auto

lemma aligned_plus4:
  assumes "8 dvd unat (b::u32)"
  shows "unat (b + 4) = unat b + 4"
proof -
  have "unat b < 2 ^ 32" using unsigned_less [of b, where 'a = nat] by simp
  then have "unat b + 4 < 2 ^ 32" using assms by (auto elim!: dvdE)
  then show ?thesis by (subst unat_add_nowrap) auto
qed

lemma aligned_lt_plus8: "8 dvd (x::nat) \<Longrightarrow> 8 dvd y \<Longrightarrow> x < y \<Longrightarrow> x + 8 \<le> y"
  by (auto elim!: dvdE)

lemma cells_below:
  assumes "regions lo (xs @ [(c, t)]) hi" and "y \<in> cells xs"
  shows "unat y + 4 \<le> unat c"
proof -
  obtain b s where bs: "(b, s) \<in> set xs" and y: "y = b \<or> y = b + 4"
    using assms(2) by (auto simp: cells_def)
  have "unat b + unat s < unat c" using assms(1) bs by (rule regions_snoc_below)
  then have lt: "unat b < unat c" by simp
  have b8: "8 dvd unat b" using regions_mem [OF assms(1), of b s] bs by simp
  have c8: "8 dvd unat c" using regions_mem [OF assms(1), of c t] by simp
  have "unat b + 8 \<le> unat c" using b8 c8 lt by (rule aligned_lt_plus8)
  then show ?thesis using y aligned_plus4 [OF b8] by auto
qed

lemma cells_above:
  assumes "regions lo xs hi" and "y \<in> cells xs"
  shows "lo \<le> unat y"
proof -
  obtain b s where bs: "(b, s) \<in> set xs" and y: "y = b \<or> y = b + 4"
    using assms(2) by (auto simp: cells_def)
  have "lo \<le> unat b" and b8: "8 dvd unat b" using regions_mem [OF assms(1) bs] by simp_all
  then show ?thesis using y aligned_plus4 [OF b8] by auto
qed

lemma not_in_cells_below:
  "regions lo (xs @ [(c, t)]) hi \<Longrightarrow> unat c < unat x + 4 \<Longrightarrow> x \<notin> cells xs"
  by (auto dest: cells_below)

lemma not_in_cells_above:
  "regions lo xs hi \<Longrightarrow> unat x < lo \<Longrightarrow> x \<notin> cells xs"
  by (auto dest: cells_above)

lemma carve_list:
  assumes seg: "lseg m p0 (fpre @ (pv, u) # (a, sz) # post) JMEM_HEAP_END_OF_LIST"
    and reg: "regions lo (fpre @ (pv, u) # (a, sz) # post) hi"
    and hi: "hi < 2 ^ 32"
    and req: "unat req \<le> unat sz" "8 dvd unat req"
  shows "lseg (carve m pv a req) p0
           (fpre @ (pv, u) # (if req < sz then [(a + req, sz - req)] else []) @ post)
           JMEM_HEAP_END_OF_LIST"
    and "regions lo (fpre @ (pv, u) # (if req < sz then [(a + req, sz - req)] else []) @ post) hi"
    and "\<forall>(b, s) \<in> set (fpre @ (pv, u) # (if req < sz then [(a + req, sz - req)] else []) @ post).
           unat b + unat s \<le> unat a \<or> unat a + unat req \<le> unat b"
    and "req < sz \<Longrightarrow> unat (a + req) = unat a + unat req \<and> unat (sz - req) = unat sz - unat req
           \<and> 0 < unat (sz - req)"
proof -
  have r1: "regions lo (fpre @ [(pv, u)]) hi"
    and r2: "regions (Suc (unat pv + unat u)) ((a, sz) # post) hi"
    using reg regions_append [of lo fpre pv u "(a, sz) # post" hi] by simp_all
  have r3: "regions (Suc (unat a + unat sz)) post hi" using r2 by simp
  have pv8: "8 dvd unat pv" using regions_mem [OF r1, of pv u] by simp
  have a8: "8 dvd unat a" and s8: "8 dvd unat sz" and ahi: "unat a + unat sz \<le> hi"
    and pva: "unat pv + unat u < unat a"
    using r2 by simp_all
  have pv4: "unat (pv + 4) = unat pv + 4" using pv8 by (rule aligned_plus4)
  have pva8: "unat pv + 8 \<le> unat a" using pv8 a8 pva by (intro aligned_lt_plus8) simp_all
  from seg obtain r where s1: "lseg m p0 fpre r"
    and s2: "lseg m r ((pv, u) # (a, sz) # post) JMEM_HEAP_END_OF_LIST"
    unfolding lseg_append by blast
  have rp: "r = pv" and pvE: "pv \<noteq> JMEM_HEAP_END_OF_LIST" and mu: "m (pv + 4) = u"
    and mpv: "m pv = a" and aE: "a \<noteq> JMEM_HEAP_END_OF_LIST" and msz: "m (a + 4) = sz"
    and s3: "lseg m (m a) post JMEM_HEAP_END_OF_LIST"
    using s2 by simp_all
  have ar: "unat (a + req) = unat a + unat req"
    using req(1) ahi hi by (intro unat_add_nowrap) simp
  have sr: "unat (sz - req) = unat sz - unat req" using req(1) by (rule unat_sub_nowrap)
  have ar8: "8 dvd unat (a + req)" unfolding ar using a8 req(2) by simp
  have pv_pre: "pv \<notin> cells fpre" using r1 by (rule not_in_cells_below) simp
  have pv_post: "pv \<notin> cells post" using r3 by (rule not_in_cells_above) (use pva in simp)
  have pv_ne: "pv + 4 \<noteq> pv" by simp
  show "req < sz \<Longrightarrow> unat (a + req) = unat a + unat req \<and> unat (sz - req) = unat sz - unat req
           \<and> 0 < unat (sz - req)"
    using ar sr by (simp add: word_less_nat_alt)
  show "lseg (carve m pv a req) p0
           (fpre @ (pv, u) # (if req < sz then [(a + req, sz - req)] else []) @ post)
           JMEM_HEAP_END_OF_LIST"
  proof (cases "req < sz")
    case False
    then have cv: "carve m pv a req = m(pv := m a)" by (simp add: carve_def msz)
    have "lseg (m(pv := m a)) p0 fpre pv" using s1 rp pv_pre by (simp add: lseg_frame)
    moreover have "lseg (m(pv := m a)) (m a) post JMEM_HEAP_END_OF_LIST"
      using s3 pv_post by (simp add: lseg_frame)
    ultimately show ?thesis
      unfolding cv lseg_append using False pvE mu by auto
  next
    case True
    then have lt: "unat req < unat sz" by (simp add: word_less_nat_alt)
    have gap: "unat req + 8 \<le> unat sz" using req(2) s8 lt by (rule aligned_lt_plus8)
    have ar4: "unat (a + req + 4) = unat a + unat req + 4"
      using aligned_plus4 [OF ar8] ar by simp
    let ?m1 = "m(a + req + 4 := sz - req)"
    let ?m2 = "?m1(a + req := m a)"
    let ?m3 = "?m2(pv := a + req)"
    have cv: "carve m pv a req = ?m3" using True by (simp add: carve_def msz)
    have n1: "a + req + 4 \<notin> cells fpre" using r1 by (rule not_in_cells_below) (use ar4 pva8 in simp)
    have n2: "a + req \<notin> cells fpre" using r1 by (rule not_in_cells_below) (use ar pva8 in simp)
    have n3: "a + req + 4 \<notin> cells post" using r3 by (rule not_in_cells_above) (use ar4 gap in simp)
    have n4: "a + req \<notin> cells post" using r3 by (rule not_in_cells_above) (use ar gap in simp)
    have d1: "a + req + 4 \<noteq> pv" "a + req \<noteq> pv" "a + req + 4 \<noteq> pv + 4" "a + req \<noteq> pv + 4"
      using ar ar4 pv4 pva8 by (auto dest!: arg_cong [where f = unat])
    have d2: "a + req + 4 \<noteq> a + req" by simp
    have arE: "a + req \<noteq> JMEM_HEAP_END_OF_LIST" using ar8 by (rule aligned_not_END)
    have "lseg ?m3 p0 fpre pv" using s1 rp pv_pre n1 n2 by (simp add: lseg_frame)
    moreover have "lseg ?m3 (m a) post JMEM_HEAP_END_OF_LIST"
      using s3 pv_post n3 n4 by (simp add: lseg_frame)
    moreover have "?m3 (pv + 4) = u" using mu d1 by simp
    moreover have "?m3 pv = a + req" by simp
    moreover have "?m3 (a + req + 4) = sz - req" using d1 d2 by simp
    moreover have "?m3 (a + req) = m a" using d1 by simp
    ultimately show ?thesis
      unfolding cv lseg_append using True pvE arE by auto
  qed
  show "regions lo (fpre @ (pv, u) # (if req < sz then [(a + req, sz - req)] else []) @ post) hi"
  proof (cases "req < sz")
    case False
    have "regions (Suc (unat pv + unat u)) post hi" using r3 by (rule regions_mono) (use pva in simp)
    then show ?thesis using False r1 regions_append [of lo fpre pv u post hi] by simp
  next
    case True
    then have lt: "unat req < unat sz" by (simp add: word_less_nat_alt)
    have "8 dvd unat sz - unat req" using s8 req(2) by (rule dvd_diff_nat)
    then have "regions (Suc (unat pv + unat u)) ((a + req, sz - req) # post) hi"
      using r3 pva ar sr ar8 ahi lt by simp
    then show ?thesis
      using True r1 regions_append [of lo fpre pv u "(a + req, sz - req) # post" hi] by simp
  qed
  show "\<forall>(b, s) \<in> set (fpre @ (pv, u) # (if req < sz then [(a + req, sz - req)] else []) @ post).
           unat b + unat s \<le> unat a \<or> unat a + unat req \<le> unat b"
  proof -
    have "unat b + unat s \<le> unat a" if "(b, s) \<in> set fpre" for b s
      using regions_snoc_below [OF r1 that] pva by simp
    moreover have "unat a + unat req \<le> unat b" if "(b, s) \<in> set post" for b s
      using regions_mem [OF r3 that] req(1) by simp
    moreover have "unat pv + unat u \<le> unat a" using pva by simp
    moreover have "unat a + unat req \<le> unat (a + req)" using ar by simp
    ultimately show ?thesis by auto
  qed
qed

lemma heap_inv_hi: "layout_ok L \<Longrightarrow> unat (heap_addr L) + unat (JMEM_HEAP_SIZE L) < 2 ^ 32"
  by (simp add: layout_ok_def)

lemma area_end: "layout_ok L \<Longrightarrow>
  unat (area L) + unat (JMEM_HEAP_AREA_SIZE L) = unat (heap_addr L) + unat (JMEM_HEAP_SIZE L)"
  by (simp add: unat_area unat_area_size layout_ok_def)

lemma heap_inv_node:
  assumes "heap_inv L h xs" and "(b, s) \<in> set xs"
  shows "unat (area L) \<le> unat b" "8 dvd unat b" "8 dvd unat s" "8 \<le> unat s"
    "unat b + unat s \<le> unat (area L) + unat (JMEM_HEAP_AREA_SIZE L)"
    "jmem_is_heap_pointer L b" "b \<noteq> NULL"
proof -
  have L: "layout_ok L" using assms(1) by (simp add: heap_inv_def)
  have r: "regions (Suc (unat (heap_addr L))) xs (unat (heap_addr L) + unat (JMEM_HEAP_SIZE L))"
    and f8: "8 dvd unat (heap_addr L)"
    using assms(1) by (simp_all add: heap_inv_def first_p_def)
  have m: "Suc (unat (heap_addr L)) \<le> unat b" "8 dvd unat b" "8 dvd unat s"
    "unat b + unat s \<le> unat (heap_addr L) + unat (JMEM_HEAP_SIZE L)"
    using regions_mem [OF r assms(2)] by simp_all
  have lo: "unat (heap_addr L) + 8 \<le> unat b" using f8 m(2) m(1) by (intro aligned_lt_plus8) simp_all
  have pos: "0 < unat s" using assms by (auto simp: heap_inv_def)
  show "unat (area L) \<le> unat b" using lo by (simp add: unat_area [OF L])
  show "8 dvd unat b" "8 dvd unat s" using m by simp_all
  show "8 \<le> unat s" using pos m(3) by (auto elim!: dvdE)
  show "unat b + unat s \<le> unat (area L) + unat (JMEM_HEAP_AREA_SIZE L)"
    using m(4) by (simp add: area_end [OF L])
  show "jmem_is_heap_pointer L b" unfolding heap_pointer_nat [OF L] using lo m(4) by simp
  show "b \<noteq> NULL" using lo by (auto simp: NULL_def)
qed

lemma free_sum_mem: "(b, s) \<in> set xs \<Longrightarrow> unat s \<le> free_sum xs"
  by (induction xs) auto

lemma carve_heap_inv:
  assumes inv: "heap_inv L h (pre @ (a, s0) # post)"
    and req: "unat req \<le> unat s0" "8 dvd unat req"
    and rest: "rest = (if req < s0 then [(a + req, s0 - req)] else [])"
    and sk: "sk \<in> insert (first_p L) (insert JMEM_HEAP_END_OF_LIST (fst ` set (pre @ rest @ post)))"
    and l: "jmem_heap_allocated_size h + req \<le> l"
    and pv: "pv = last (first_p L # map fst pre)"
  shows "heap_inv L (h\<lparr>memory := carve (memory h) pv a req,
                         jmem_heap_allocated_size := jmem_heap_allocated_size h + req,
                         jmem_heap_list_skip_p := sk, jmem_heap_limit := l\<rparr>) (pre @ rest @ post)"
    and "free_sum (pre @ rest @ post) + unat req = free_sum (pre @ (a, s0) # post)"
    and "unat (jmem_heap_allocated_size h + req) = unat (jmem_heap_allocated_size h) + unat req"
    and "\<forall>(b, s) \<in> set (pre @ rest @ post). unat b + unat s \<le> unat a \<or> unat a + unat req \<le> unat b"
proof -
  let ?f = "first_p L"
  let ?hi = "unat (heap_addr L) + unat (JMEM_HEAP_SIZE L)"
  let ?full0 = "(?f, 0) # pre"
  have L: "layout_ok L" using inv by (simp add: heap_inv_def)
  have hi: "?hi < 2 ^ 32" using L by (rule heap_inv_hi)
  obtain u where lst: "last ?full0 = (pv, u)"
    using pv last_map [of ?full0 fst] by (cases "last ?full0") auto
  define fpre where "fpre = butlast ?full0"
  have dec: "?full0 = fpre @ [(pv, u)]"
    unfolding fpre_def using lst by (metis append_butlast_last_id list.distinct(1))
  have full: "(?f, 0) # pre @ (a, s0) # post = fpre @ (pv, u) # (a, s0) # post"
    using dec by (metis append_Cons append_assoc append_Nil)
  have newfull: "(?f, 0) # pre @ rest @ post = fpre @ (pv, u) # rest @ post"
    using dec by (metis append_Cons append_assoc append_Nil)
  have seg: "lseg (memory h) ?f (fpre @ (pv, u) # (a, s0) # post) JMEM_HEAP_END_OF_LIST"
    and reg: "regions (unat ?f) (fpre @ (pv, u) # (a, s0) # post) ?hi"
    using inv unfolding heap_inv_def full [symmetric] by simp_all
  note cl = carve_list [OF seg reg hi req]
  have seg': "lseg (carve (memory h) pv a req) ?f ((?f, 0) # pre @ rest @ post) JMEM_HEAP_END_OF_LIST"
    using cl(1) unfolding newfull rest [symmetric] .
  have reg': "regions (unat ?f) ((?f, 0) # pre @ rest @ post) ?hi"
    using cl(2) unfolding newfull rest [symmetric] .
  have pos: "\<forall>(b, s) \<in> set (pre @ rest @ post). 0 < unat s"
    using inv cl(4) unfolding heap_inv_def rest by auto
  have "set ((?f, 0) # pre @ rest @ post) = set (fpre @ (pv, u) # rest @ post)"
    by (simp only: newfull)
  then have sub: "set (pre @ rest @ post) \<subseteq> set (fpre @ (pv, u) # rest @ post)"
    by (simp only: list.set) blast
  have "\<forall>(b, s) \<in> set (fpre @ (pv, u) # rest @ post).
           unat b + unat s \<le> unat a \<or> unat a + unat req \<le> unat b"
    using cl(3) unfolding rest [symmetric] .
  then show dis: "\<forall>(b, s) \<in> set (pre @ rest @ post). unat b + unat s \<le> unat a \<or> unat a + unat req \<le> unat b"
    using sub by blast
  show sum: "free_sum (pre @ rest @ post) + unat req = free_sum (pre @ (a, s0) # post)"
    using cl(4) req(1) unfolding rest by (auto simp: word_less_nat_alt)
  have cons: "unat (jmem_heap_allocated_size h) + free_sum (pre @ (a, s0) # post) = unat (JMEM_HEAP_AREA_SIZE L)"
    using inv by (simp add: heap_inv_def)
  have "unat (JMEM_HEAP_AREA_SIZE L) < 2 ^ 32" using unsigned_less [of "JMEM_HEAP_AREA_SIZE L", where 'a = nat] by simp
  then have "unat (jmem_heap_allocated_size h) + unat req < 2 ^ 32"
    using cons req(1) by simp
  then show al: "unat (jmem_heap_allocated_size h + req) = unat (jmem_heap_allocated_size h) + unat req"
    by (rule unat_add_nowrap)
  show "heap_inv L (h\<lparr>memory := carve (memory h) pv a req,
                         jmem_heap_allocated_size := jmem_heap_allocated_size h + req,
                         jmem_heap_list_skip_p := sk, jmem_heap_limit := l\<rparr>) (pre @ rest @ post)"
    unfolding heap_inv_def using L seg' reg' pos sk l al sum cons by simp
qed

section \<open>The internal allocation\<close>

lemma heap_inv_chain:
  assumes "heap_inv L h xs"
  shows "lseg (memory h) (memory h (first_p L)) xs JMEM_HEAP_END_OF_LIST"
    and "memory h (first_p L + 4) = 0"
    and "\<forall>(b, s) \<in> set xs. jmem_is_heap_pointer L b"
    and "layout_ok L"
    and "unat (jmem_heap_allocated_size h) + unat (CONFIG_MEM_HEAP_DESIRED_LIMIT L) < 2 ^ 32"
    and "0 < unat (CONFIG_MEM_HEAP_DESIRED_LIMIT L)"
proof -
  show L: "layout_ok L" using assms by (simp add: heap_inv_def)
  show "lseg (memory h) (memory h (first_p L)) xs JMEM_HEAP_END_OF_LIST"
    and "memory h (first_p L + 4) = 0"
    using assms by (simp_all add: heap_inv_def)
  show "\<forall>(b, s) \<in> set xs. jmem_is_heap_pointer L b"
    using heap_inv_node(6) [OF assms] by auto
  have "unat (jmem_heap_allocated_size h) \<le> unat (JMEM_HEAP_AREA_SIZE L)"
    using assms by (simp add: heap_inv_def)
  moreover have "unat (JMEM_HEAP_SIZE L) + unat (CONFIG_MEM_HEAP_DESIRED_LIMIT L) < 2 ^ 32"
    using L by (simp add: layout_ok_def)
  moreover have "unat (JMEM_HEAP_AREA_SIZE L) \<le> unat (JMEM_HEAP_SIZE L)"
    using L by (simp add: unat_area_size)
  ultimately show "unat (jmem_heap_allocated_size h) + unat (CONFIG_MEM_HEAP_DESIRED_LIMIT L) < 2 ^ 32"
    by linarith
  show "0 < unat (CONFIG_MEM_HEAP_DESIRED_LIMIT L)" using L by (simp add: layout_ok_def)
qed

lemma bind_res_ret [simp]: "bind_res (ret x) f = f x"
  by (simp add: bind_res_def ret_def)

lemma bind_res_stop [simp]: "bind_res (stop e) f = stop e"
  by (simp add: bind_res_def stop_def)

lemma ret_inject [simp]: "ret x = ret y \<longleftrightarrow> x = y"
  by (simp add: ret_def)

lemma ret_not_stop [simp]: "ret x \<noteq> stop e" "stop e \<noteq> ret x" "ret x \<noteq> None" "stop e \<noteq> None"
  by (simp_all add: ret_def stop_def)

lemma alloc_internal_none:
  assumes inv: "heap_inv L h xs"
    and req: "req = (sz + JMEM_ALIGNMENT - 1) div JMEM_ALIGNMENT * JMEM_ALIGNMENT"
    and small: "\<forall>(b, s) \<in> set xs. s < req"
  shows "\<exists>l. jmem_heap_alloc_block_internal L sz h = ret (NULL, h\<lparr>jmem_heap_limit := l\<rparr>)
             \<and> jmem_heap_allocated_size h < l
             \<and> (jmem_heap_allocated_size h < jmem_heap_limit h \<longrightarrow> l = jmem_heap_limit h)"
proof -
  note ch = heap_inv_chain [OF inv]
  have nofast: "\<not> (req = JMEM_ALIGNMENT \<and> memory h (first_p L) \<noteq> JMEM_HEAP_END_OF_LIST)"
  proof
    assume a: "req = JMEM_ALIGNMENT \<and> memory h (first_p L) \<noteq> JMEM_HEAP_END_OF_LIST"
    then obtain b s rest where xs: "xs = (b, s) # rest" using ch(1) by (cases xs) auto
    have "8 \<le> unat s" using heap_inv_node(4) [OF inv, of b s] xs by simp
    moreover have "unat s < 8" using small xs a by (simp add: JMEM_ALIGNMENT_def word_less_nat_alt)
    ultimately show False by simp
  qed
  have w: "alloc_walk L req (first_p L) (memory h (first_p L)) h = ret (NULL, h)"
    using ch(1) small ch(3) by (intro alloc_walk_none [of _ _ xs]) auto
  obtain l where l: "grow_limit L h = ret (h\<lparr>jmem_heap_limit := l\<rparr>)"
    "jmem_heap_allocated_size h < l"
    "jmem_heap_allocated_size h < jmem_heap_limit h \<longrightarrow> l = jmem_heap_limit h"
    using grow_limit_returns [OF ch(6) ch(5)] by blast
  have "jmem_heap_alloc_block_internal L sz h = ret (NULL, h\<lparr>jmem_heap_limit := l\<rparr>)"
    unfolding jmem_heap_alloc_block_internal_def Let_def req [symmetric] if_not_P [OF nofast] w
    using l(1) by simp
  then show ?thesis using l by blast
qed

lemma alloc_internal_fit:
  assumes inv: "heap_inv L h (pre @ (a, s0) # post)"
    and req: "req = (sz + JMEM_ALIGNMENT - 1) div JMEM_ALIGNMENT * JMEM_ALIGNMENT"
    and small: "\<forall>(b, s) \<in> set pre. s < req"
    and fit: "req \<le> s0"
    and pv: "pv = last (first_p L # map fst pre)"
    and rest: "rest = (if req < s0 then [(a + req, s0 - req)] else [])"
  shows "\<exists>l sk. jmem_heap_alloc_block_internal L sz h =
             ret (a, h\<lparr>memory := carve (memory h) pv a req,
                       jmem_heap_allocated_size := jmem_heap_allocated_size h + req,
                       jmem_heap_list_skip_p := sk, jmem_heap_limit := l\<rparr>)
           \<and> jmem_heap_allocated_size h + req < l
           \<and> (jmem_heap_allocated_size h + req < jmem_heap_limit h \<longrightarrow> l = jmem_heap_limit h)
           \<and> (req \<noteq> JMEM_ALIGNMENT \<longrightarrow> sk = pv)
           \<and> sk \<in> insert (first_p L) (insert JMEM_HEAP_END_OF_LIST (fst ` set (pre @ rest @ post)))"
proof -
  let ?xs = "pre @ (a, s0) # post"
  let ?m = "memory h"
  let ?f = "first_p L"
  note ch = heap_inv_chain [OF inv]
  have r8: "8 dvd unat req" unfolding req JMEM_ALIGNMENT_def by (rule round8_dvd)
  have fit': "unat req \<le> unat s0" using fit by (simp add: word_le_nat_alt)
  have a_in: "(a, s0) \<in> set ?xs" by simp
  note na = heap_inv_node [OF inv a_in]
  have step: "\<exists>sk. (if req = JMEM_ALIGNMENT \<and> ?m ?f \<noteq> JMEM_HEAP_END_OF_LIST
              then alloc_fast_path L h else alloc_walk L req ?f (?m ?f) h)
          = ret (a, h\<lparr>memory := carve ?m pv a req,
                       jmem_heap_allocated_size := jmem_heap_allocated_size h + req,
                       jmem_heap_list_skip_p := sk\<rparr>)
          \<and> (req \<noteq> JMEM_ALIGNMENT \<longrightarrow> sk = pv)
          \<and> sk \<in> insert ?f (insert JMEM_HEAP_END_OF_LIST (fst ` set (pre @ rest @ post)))"
  proof (cases "req = JMEM_ALIGNMENT \<and> ?m ?f \<noteq> JMEM_HEAP_END_OF_LIST")
    case False
    have w: "alloc_walk L req ?f (?m ?f) h =
           ret (a, h\<lparr>memory := carve ?m (last (?f # map fst pre)) a req,
                     jmem_heap_allocated_size := jmem_heap_allocated_size h + req,
                     jmem_heap_list_skip_p := last (?f # map fst pre)\<rparr>)"
      using ch(1) small fit ch(3) by (rule alloc_walk_found)
    have "last (?f # map fst pre) \<in> insert ?f (fst ` set pre)"
      using last_in_set [of "map fst pre"] by (cases "pre = []") auto
    moreover have "insert ?f (fst ` set pre)
        \<subseteq> insert ?f (insert JMEM_HEAP_END_OF_LIST (fst ` set (pre @ rest @ post)))"
      by auto
    ultimately have pvin: "pv \<in> insert ?f (insert JMEM_HEAP_END_OF_LIST (fst ` set (pre @ rest @ post)))"
      unfolding pv by (rule set_mp [rotated])
    show ?thesis
      unfolding if_not_P [OF False]
      by (rule exI [of _ pv]) (use w pvin in \<open>simp only: pv [symmetric] simp_thms\<close>)
  next
    case True
    have pre: "pre = []"
    proof (cases pre)
      case (Cons x pre')
      obtain b s where x: "x = (b, s)" by (cases x)
      have "8 \<le> unat s" using heap_inv_node(4) [OF inv, of b s] Cons x by simp
      moreover have "unat s < 8" using small Cons x True by (simp add: JMEM_ALIGNMENT_def word_less_nat_alt)
      ultimately show ?thesis by simp
    qed simp
    have seg: "lseg ?m (?m ?f) ((a, s0) # post) JMEM_HEAP_END_OF_LIST" using ch(1) pre by simp
    have fp: "alloc_fast_path L h =
           ret (a, h\<lparr>memory := carve ?m ?f a JMEM_ALIGNMENT,
                     jmem_heap_allocated_size := jmem_heap_allocated_size h + JMEM_ALIGNMENT,
                     jmem_heap_list_skip_p :=
                       (if a = jmem_heap_list_skip_p h
                        then carve ?m ?f a JMEM_ALIGNMENT ?f
                        else jmem_heap_list_skip_p h)\<rparr>)"
      using seg na(6) na(4) by (rule alloc_fast_path_eq)
    have pvf: "pv = ?f" using pv pre by simp
    have ms0: "?m (a + 4) = s0" using seg by simp
    have nf: "carve ?m ?f a req ?f = (if req < s0 then a + req else ?m a)"
      by (simp add: carve_def ms0)
    have nxt: "?m a \<in> insert JMEM_HEAP_END_OF_LIST (fst ` set post)"
      using seg by (cases post) auto
    have new_first: "carve ?m ?f a req ?f \<in> insert ?f (insert JMEM_HEAP_END_OF_LIST (fst ` set (pre @ rest @ post)))"
      unfolding nf rest using nxt by auto
    have old: "jmem_heap_list_skip_p h \<in> insert ?f (insert JMEM_HEAP_END_OF_LIST (fst ` set ?xs))"
      using inv by (simp add: heap_inv_def)
    have keep: "a \<noteq> jmem_heap_list_skip_p h \<Longrightarrow>
        jmem_heap_list_skip_p h \<in> insert ?f (insert JMEM_HEAP_END_OF_LIST (fst ` set (pre @ rest @ post)))"
      using old pre by auto
    have rq: "req = JMEM_ALIGNMENT" using True by simp
    let ?sk = "if a = jmem_heap_list_skip_p h then carve ?m ?f a req ?f else jmem_heap_list_skip_p h"
    have "?sk \<in> insert ?f (insert JMEM_HEAP_END_OF_LIST (fst ` set (pre @ rest @ post)))"
      using new_first keep by (cases "a = jmem_heap_list_skip_p h") simp_all
    then show ?thesis
      unfolding if_P [OF True]
      by (intro exI [of _ ?sk]) (use fp rq pvf in simp)
  qed
  then obtain sk where sk: "(if req = JMEM_ALIGNMENT \<and> ?m ?f \<noteq> JMEM_HEAP_END_OF_LIST
              then alloc_fast_path L h else alloc_walk L req ?f (?m ?f) h)
          = ret (a, h\<lparr>memory := carve ?m pv a req,
                       jmem_heap_allocated_size := jmem_heap_allocated_size h + req,
                       jmem_heap_list_skip_p := sk\<rparr>)"
    "req \<noteq> JMEM_ALIGNMENT \<longrightarrow> sk = pv"
    "sk \<in> insert ?f (insert JMEM_HEAP_END_OF_LIST (fst ` set (pre @ rest @ post)))"
    by blast
  let ?h1 = "h\<lparr>memory := carve ?m pv a req,
               jmem_heap_allocated_size := jmem_heap_allocated_size h + req,
               jmem_heap_list_skip_p := sk\<rparr>"
  have le0: "jmem_heap_allocated_size h + req \<le> jmem_heap_allocated_size h + req" by simp
  note ci = carve_heap_inv [OF inv fit' r8 rest sk(3) le0 pv]
  have "unat (jmem_heap_allocated_size ?h1) + unat (CONFIG_MEM_HEAP_DESIRED_LIMIT L) < 2 ^ 32"
    using heap_inv_chain(5) [OF ci(1)] by simp
  from grow_limit_returns [OF ch(6) this]
  obtain l where l: "grow_limit L ?h1 = ret (?h1\<lparr>jmem_heap_limit := l\<rparr>)"
    "jmem_heap_allocated_size h + req < l"
    "jmem_heap_allocated_size h + req < jmem_heap_limit h \<longrightarrow> l = jmem_heap_limit h"
    by auto
  have a8: "a mod JMEM_ALIGNMENT = 0" using na(2) by (simp add: JMEM_ALIGNMENT_def mod8_dvd)
  have "jmem_heap_alloc_block_internal L sz h = ret (a, ?h1\<lparr>jmem_heap_limit := l\<rparr>)"
    unfolding jmem_heap_alloc_block_internal_def Let_def req [symmetric] sk(1)
    using l(1) na(7) a8 by simp
  then show ?thesis using l sk by auto
qed

lemma heap_inv_limit_update:
  "heap_inv L h xs \<Longrightarrow> jmem_heap_allocated_size h \<le> l \<Longrightarrow> heap_inv L (h\<lparr>jmem_heap_limit := l\<rparr>) xs"
  by (simp add: heap_inv_def)

lemma alloc_internal_inv:
  assumes inv: "heap_inv L h xs"
    and req: "req = (sz + JMEM_ALIGNMENT - 1) div JMEM_ALIGNMENT * JMEM_ALIGNMENT"
  shows "\<exists>p h' xs'. jmem_heap_alloc_block_internal L sz h = ret (p, h') \<and> heap_inv L h' xs'
           \<and> jmem_heap_allocated_size h' < jmem_heap_limit h'
           \<and> (p = NULL \<longrightarrow> xs' = xs \<and> (\<forall>(b, s) \<in> set xs. s < req)
                 \<and> (\<exists>l. h' = h\<lparr>jmem_heap_limit := l\<rparr>)
                 \<and> (jmem_heap_allocated_size h < jmem_heap_limit h \<longrightarrow> h' = h))
           \<and> (p \<noteq> NULL \<longrightarrow> free_sum xs' + unat req = free_sum xs
                 \<and> unat (jmem_heap_allocated_size h') = unat (jmem_heap_allocated_size h) + unat req
                 \<and> (\<exists>s. (p, s) \<in> set xs \<and> req \<le> s)
                 \<and> (\<forall>(b, s) \<in> set xs'. unat b + unat s \<le> unat p \<or> unat p + unat req \<le> unat b))"
proof (cases "\<exists>x \<in> set xs. req \<le> snd x")
  case False
  then have small: "\<forall>(b, s) \<in> set xs. s < req" by (auto simp: not_le)
  from alloc_internal_none [OF inv req small]
  obtain l where l: "jmem_heap_alloc_block_internal L sz h = ret (NULL, h\<lparr>jmem_heap_limit := l\<rparr>)"
    "jmem_heap_allocated_size h < l"
    "jmem_heap_allocated_size h < jmem_heap_limit h \<longrightarrow> l = jmem_heap_limit h" by blast
  have i: "heap_inv L (h\<lparr>jmem_heap_limit := l\<rparr>) xs"
    using inv l(2) by (intro heap_inv_limit_update) simp_all
  have e: "jmem_heap_allocated_size h < jmem_heap_limit h \<longrightarrow> h\<lparr>jmem_heap_limit := l\<rparr> = h"
    using l(3) by simp
  show ?thesis
    apply (rule exI [of _ NULL], rule exI [of _ "h\<lparr>jmem_heap_limit := l\<rparr>"], rule exI [of _ xs])
    using l(1,2) i small e by auto
next
  case True
  from split_list_first_prop [OF True]
  obtain pre x post where sp: "xs = pre @ x # post" "req \<le> snd x" "\<forall>y \<in> set pre. \<not> req \<le> snd y"
    by blast
  obtain a s0 where x: "x = (a, s0)" by (cases x)
  have xs: "xs = pre @ (a, s0) # post" and fit: "req \<le> s0" using sp x by simp_all
  have small: "\<forall>(b, s) \<in> set pre. s < req" using sp(3) by (auto simp: not_le)
  define rest where "rest = (if req < s0 then [(a + req, s0 - req)] else [])"
  define pv where "pv = last (first_p L # map fst pre)"
  have inv': "heap_inv L h (pre @ (a, s0) # post)" using inv xs by simp
  from alloc_internal_fit [OF inv' req small fit pv_def rest_def]
  obtain l sk where r: "jmem_heap_alloc_block_internal L sz h =
             ret (a, h\<lparr>memory := carve (memory h) pv a req,
                       jmem_heap_allocated_size := jmem_heap_allocated_size h + req,
                       jmem_heap_list_skip_p := sk, jmem_heap_limit := l\<rparr>)"
    and l: "jmem_heap_allocated_size h + req < l"
    and sk: "sk \<in> insert (first_p L) (insert JMEM_HEAP_END_OF_LIST (fst ` set (pre @ rest @ post)))"
    by blast
  have r8: "8 dvd unat req" unfolding req JMEM_ALIGNMENT_def by (rule round8_dvd)
  have fit': "unat req \<le> unat s0" using fit by (simp add: word_le_nat_alt)
  have le: "jmem_heap_allocated_size h + req \<le> l" using l by simp
  note ci = carve_heap_inv [OF inv' fit' r8 rest_def sk le pv_def]
  have nn: "a \<noteq> NULL" using heap_inv_node(7) [OF inv', of a s0] by simp
  let ?h' = "h\<lparr>memory := carve (memory h) pv a req,
                       jmem_heap_allocated_size := jmem_heap_allocated_size h + req,
                       jmem_heap_list_skip_p := sk, jmem_heap_limit := l\<rparr>"
  have "(a, s0) \<in> set xs" using xs by simp
  then have mem: "\<exists>s. (a, s) \<in> set xs \<and> req \<le> s" using fit by blast
  show ?thesis
    apply (rule exI [of _ a], rule exI [of _ ?h'], rule exI [of _ "pre @ rest @ post"])
    using r ci(1) ci(2) ci(3) ci(4) l nn mem unfolding xs by simp
qed

section \<open>Freeing: the walk and the insertion\<close>

lemma free_walk_reaches:
  assumes "lseg m (m start) ys q"
    and "\<forall>(b, s) \<in> set ys. b < p \<and> jmem_is_heap_pointer L b"
    and "\<not> q < p"
  shows "free_walk L p start m = ret (last (start # map fst ys))"
  using assms
proof (induction ys arbitrary: start)
  case Nil
  then show ?case by (subst free_walk.simps) (simp add: ret_def)
next
  case (Cons x ys)
  obtain b s where x: "x = (b, s)" by (cases x)
  have c: "m start = b" and t: "lseg m (m b) ys q" using Cons.prems(1) x by auto
  have lt: "b < p" and hp: "jmem_is_heap_pointer L b"
    and rest: "\<forall>(b, s) \<in> set ys. b < p \<and> jmem_is_heap_pointer L b"
    using Cons.prems(2) x by auto
  have "free_walk L p start m = free_walk L p b m"
    using c lt hp by (subst free_walk.simps) (simp add: Let_def)
  then show ?case using Cons.IH [OF t rest Cons.prems(3)] x by simp
qed

lemma split_at_block:
  assumes "regions lo ((f, u0) # xs) hi"
    and "unat f < P"
    and "\<forall>(b, s) \<in> set ((f, u0) # xs). unat b + unat s \<le> P \<or> P + N \<le> unat b"
    and "\<forall>(b, s) \<in> set xs. 0 < unat s"
  shows "\<exists>fpre pv u post. (f, u0) # xs = fpre @ (pv, u) # post
           \<and> (\<forall>(b, s) \<in> set (fpre @ [(pv, u)]). unat b < P)
           \<and> unat pv + unat u \<le> P \<and> (\<forall>(b, s) \<in> set post. P + N \<le> unat b)"
  using assms
proof (induction xs arbitrary: f u0 lo)
  case Nil
  then show ?case
    apply (rule_tac x = "[]" in exI, rule_tac x = f in exI, rule_tac x = u0 in exI,
        rule_tac x = "[]" in exI)
    by auto
next
  case (Cons x xs)
  obtain b s where x: "x = (b, s)" by (cases x)
  have r: "regions (Suc (unat f + unat u0)) ((b, s) # xs) hi" using Cons.prems(1) x by simp
  have fu: "unat f + unat u0 \<le> P" using Cons.prems(2,3) by auto
  show ?case
  proof (cases "unat b < P")
    case True
    have "\<exists>fpre pv u post. (b, s) # xs = fpre @ (pv, u) # post
           \<and> (\<forall>(b, s) \<in> set (fpre @ [(pv, u)]). unat b < P)
           \<and> unat pv + unat u \<le> P \<and> (\<forall>(b, s) \<in> set post. P + N \<le> unat b)"
      using r True Cons.prems(3,4) x by (intro Cons.IH) auto
    then obtain fpre pv u post where *: "(b, s) # xs = fpre @ (pv, u) # post"
      "\<forall>(b, s) \<in> set (fpre @ [(pv, u)]). unat b < P"
      "unat pv + unat u \<le> P" "\<forall>(b, s) \<in> set post. P + N \<le> unat b" by blast
    show ?thesis
      apply (rule exI [of _ "(f, u0) # fpre"], rule exI [of _ pv], rule exI [of _ u], rule exI [of _ post])
      using * Cons.prems(2) x by auto
  next
    case False
    have "0 < unat s" using Cons.prems(4) x by simp
    then have bN: "P + N \<le> unat b" using False Cons.prems(3) x by auto
    have "P + N \<le> unat c" if "(c, t) \<in> set xs" for c t
    proof -
      have "regions (Suc (unat b + unat s)) xs hi" using r by simp
      from regions_mem [OF this that] show ?thesis using bN by simp
    qed
    then have "\<forall>(c, t) \<in> set (x # xs). P + N \<le> unat c" using bN x by auto
    then show ?thesis
      apply (rule_tac x = "[]" in exI, rule_tac x = f in exI, rule_tac x = u0 in exI,
          rule_tac x = "x # xs" in exI)
      using Cons.prems(2) fu by simp
  qed
qed

lemma regions_snoc_size:
  "regions lo (xs @ [(a, s)]) hi \<Longrightarrow> 8 dvd unat s' \<Longrightarrow> unat a + unat s' \<le> hi \<Longrightarrow>
     regions lo (xs @ [(a, s')]) hi"
  by (induction xs arbitrary: lo) auto

lemma regions_app:
  "regions lo (xs @ ys) hi \<longleftrightarrow> regions lo xs hi \<and> regions (bound_after lo xs) ys hi"
  by (induction xs arbitrary: lo) auto

lemma lseg_cong: "(\<forall>x \<in> cells xs. m' x = m x) \<Longrightarrow> lseg m' p xs q = lseg m p xs q"
  by (induction xs arbitrary: p) auto

lemma link_next:
  assumes seg: "lseg m1 nx post JMEM_HEAP_END_OF_LIST"
    and sz: "m1 (b + 4) = t" and bE: "b \<noteq> JMEM_HEAP_END_OF_LIST"
    and apart: "b \<notin> cells post" "b + 4 \<notin> cells post"
    and al: "8 dvd unat (b + t)"
  shows "lseg (if b + t = nx
               then let ma = m1(b + 4 := t + m1 (nx + 4)) in ma(b := ma nx)
               else m1(b := nx)) b (merge_next (b, t) post) JMEM_HEAP_END_OF_LIST"
proof (cases post)
  case Nil
  then have "nx = JMEM_HEAP_END_OF_LIST" using seg by simp
  moreover have "b + t \<noteq> JMEM_HEAP_END_OF_LIST" using al by (rule aligned_not_END)
  ultimately show ?thesis using Nil sz bE by simp
next
  case (Cons x post')
  obtain c v where x: "x = (c, v)" by (cases x)
  have c: "nx = c" "c \<noteq> JMEM_HEAP_END_OF_LIST" "m1 (c + 4) = v"
    and t: "lseg m1 (m1 c) post' JMEM_HEAP_END_OF_LIST"
    using seg Cons x by simp_all
  have d: "b \<noteq> c" "b \<noteq> c + 4" "b + 4 \<noteq> c" "b \<notin> cells post'" "b + 4 \<notin> cells post'"
    using apart Cons x by auto
  have d4: "b + 4 \<noteq> b" by simp
  show ?thesis
  proof (cases "b + t = c")
    case True
    let ?ma = "m1(b + 4 := t + v)"
    have "lseg (?ma(b := m1 c)) (m1 c) post' JMEM_HEAP_END_OF_LIST"
      using t d by (simp add: lseg_frame)
    then show ?thesis
      using True Cons x c d bE d4 by (simp add: Let_def)
  next
    case False
    have "lseg (m1(b := c)) c post JMEM_HEAP_END_OF_LIST"
      using seg c(1) apart(1) by (simp add: lseg_frame)
    then have "lseg (m1(b := c)) c ((c, v) # post') JMEM_HEAP_END_OF_LIST"
      using Cons x by simp
    then show ?thesis
      using False Cons x c(1) bE sz d4 by simp
  qed
qed

lemma regions_raise:
  "regions lo xs hi \<Longrightarrow> \<forall>(c, v) \<in> set xs. lo' \<le> unat c \<Longrightarrow> regions lo' xs hi"
  by (cases xs) auto

lemma merge_next_regions:
  assumes reg: "regions lo0 post hi" and hi: "hi < 2 ^ 32"
    and above: "\<forall>(c, v) \<in> set post. unat b + unat t \<le> unat c"
    and b: "lo \<le> unat b" "8 dvd unat b" "8 dvd unat t" "unat b + unat t \<le> hi"
  shows "regions lo (merge_next (b, t) post) hi"
    and "free_sum (merge_next (b, t) post) = unat t + free_sum post"
    and "\<forall>(c, v) \<in> set (merge_next (b, t) post). (c, v) \<in> set post \<or> (c = b \<and> unat t \<le> unat v)"
    and "fst ` set (merge_next (b, t) post) \<subseteq> insert b (fst ` set post)"
    and "8 dvd unat (b + t)"
proof -
  have bt: "unat (b + t) = unat b + unat t" using b(4) hi by (intro unat_add_nowrap) simp
  show "8 dvd unat (b + t)" unfolding bt using b by simp
  have main: "regions lo (merge_next (b, t) post) hi
      \<and> free_sum (merge_next (b, t) post) = unat t + free_sum post
      \<and> (\<forall>(c, v) \<in> set (merge_next (b, t) post). (c, v) \<in> set post \<or> (c = b \<and> unat t \<le> unat v))
      \<and> fst ` set (merge_next (b, t) post) \<subseteq> insert b (fst ` set post)"
  proof (cases post)
    case Nil
    then show ?thesis using b by simp
  next
    case (Cons x post')
    obtain c v where x: "x = (c, v)" by (cases x)
    have r: "8 dvd unat c" "8 dvd unat v" "unat c + unat v \<le> hi"
      "regions (Suc (unat c + unat v)) post' hi"
      using reg Cons x by simp_all
    have ge: "unat b + unat t \<le> unat c" using above Cons x by simp
    show ?thesis
    proof (cases "b + t = c")
      case True
      then have cu: "unat c = unat b + unat t" using bt by simp
      have tv: "unat (t + v) = unat t + unat v" using r(3) cu hi by (intro unat_add_nowrap) simp
      show ?thesis using True Cons x r b cu tv by (auto simp: add.assoc)
    next
      case False
      then have "unat c \<noteq> unat b + unat t" using bt by (auto simp: word_unat_eq_iff)
      then have "unat b + unat t < unat c" using ge by simp
      then show ?thesis using False Cons x r b by auto
    qed
  qed
  show "regions lo (merge_next (b, t) post) hi"
    and "free_sum (merge_next (b, t) post) = unat t + free_sum post"
    and "\<forall>(c, v) \<in> set (merge_next (b, t) post). (c, v) \<in> set post \<or> (c = b \<and> unat t \<le> unat v)"
    and "fst ` set (merge_next (b, t) post) \<subseteq> insert b (fst ` set post)"
    using main by blast+
qed

lemma free_insert_merge:
  assumes "pv + u = p" and "m (pv + 4) = u"
  shows "free_insert m pv nx p n =
           (if pv + (u + n) = nx
            then let ma = (m(pv + 4 := u + n))(pv + 4 := (u + n) + (m(pv + 4 := u + n)) (nx + 4))
                 in ma(pv := ma nx)
            else (m(pv + 4 := u + n))(pv := nx))"
  using assms by (simp add: free_insert_def jmem_heap_get_region_end_def Let_def)

lemma free_insert_link:
  assumes "pv + u \<noteq> p" and "m (pv + 4) = u" and "pv \<noteq> p + 4"
  shows "free_insert m pv nx p n =
           (if p + n = nx
            then let ma = ((m(p + 4 := n))(pv := p))(p + 4 := n + ((m(p + 4 := n))(pv := p)) (nx + 4))
                 in ma(p := ma nx)
            else ((m(p + 4 := n))(pv := p))(p := nx))"
  using assms by (simp add: free_insert_def jmem_heap_get_region_end_def Let_def)

lemma free_insert_frame:
  "x \<noteq> pv \<Longrightarrow> x \<noteq> pv + 4 \<Longrightarrow> x \<noteq> p \<Longrightarrow> x \<noteq> p + 4 \<Longrightarrow> free_insert m pv nx p n x = m x"
  by (simp add: free_insert_def jmem_heap_get_region_end_def Let_def)

lemma free_insert_list:
  assumes seg: "lseg m p0 (fpre @ (pv, u) # post) JMEM_HEAP_END_OF_LIST"
    and reg: "regions lo (fpre @ (pv, u) # post) hi" and hi: "hi < 2 ^ 32"
    and blk: "8 dvd unat p" "8 dvd unat n" "0 < unat n"
    and below: "unat pv < unat p" "unat pv + unat u \<le> unat p"
    and above: "unat p + unat n \<le> hi" "\<forall>(b, s) \<in> set post. unat p + unat n \<le> unat b"
    and new: "new = (if pv + u = p then merge_next (pv, u + n) post
                     else (pv, u) # merge_next (p, n) post)"
  shows "lseg (free_insert m pv (m pv) p n) p0 (fpre @ new) JMEM_HEAP_END_OF_LIST"
    and "regions lo (fpre @ new) hi"
    and "free_sum (fpre @ new) = free_sum (fpre @ (pv, u) # post) + unat n"
    and "\<forall>(c, v) \<in> set new. (c, v) \<in> set ((pv, u) # post) \<or> unat n \<le> unat v"
    and "fst ` set new \<subseteq> insert pv (insert p (fst ` set post))"
    and "pv \<in> fst ` set new"
proof -
  let ?B = "bound_after lo fpre"
  let ?FI = "free_insert m pv (m pv) p n"
  have r1: "regions lo fpre hi" and r2: "regions ?B ((pv, u) # post) hi"
    using reg unfolding regions_app by simp_all
  have r3: "regions (Suc (unat pv + unat u)) post hi" and pv8: "8 dvd unat pv" and u8: "8 dvd unat u"
    and Bpv: "?B \<le> unat pv"
    using r2 by simp_all
  have rs: "regions lo (fpre @ [(pv, u)]) hi"
    using reg regions_prefix [of lo "fpre @ [(pv, u)]" post hi] by simp
  from seg obtain r where s1: "lseg m p0 fpre r"
    and s2: "lseg m r ((pv, u) # post) JMEM_HEAP_END_OF_LIST"
    unfolding lseg_append by blast
  have rp: "r = pv" and pvE: "pv \<noteq> JMEM_HEAP_END_OF_LIST" and mu: "m (pv + 4) = u"
    and s3: "lseg m (m pv) post JMEM_HEAP_END_OF_LIST"
    using s2 by simp_all
  have n8: "8 \<le> unat n" using blk(2,3) by (auto elim!: dvdE)
  have pv4: "unat (pv + 4) = unat pv + 4" using pv8 by (rule aligned_plus4)
  have p4: "unat (p + 4) = unat p + 4" using blk(1) by (rule aligned_plus4)
  have pvp: "unat pv + 8 \<le> unat p" using pv8 blk(1) below(1) by (rule aligned_lt_plus8)
  have pvu: "unat (pv + u) = unat pv + unat u" using below(2) above(1) hi by (intro unat_add_nowrap) simp
  have un: "unat (u + n) = unat u + unat n" using below(2) above(1) hi by (intro unat_add_nowrap) simp
  have pE: "p \<noteq> JMEM_HEAP_END_OF_LIST" using blk(1) by (rule aligned_not_END)
  have rpost: "regions (unat p + unat n) post hi" using r3 above(2) by (rule regions_raise)
  have post_cells: "x \<notin> cells post" if "unat x < unat p + unat n" for x
    using rpost that by (rule not_in_cells_above)
  have pre_cells: "x \<notin> cells fpre" if "unat pv < unat x + 4" for x
    using rs that by (rule not_in_cells_below)
  have d: "pv \<noteq> p" "pv \<noteq> p + 4" "pv + 4 \<noteq> p" "pv + 4 \<noteq> p + 4" "pv + 4 \<noteq> pv" "p + 4 \<noteq> p"
    using pvp pv4 p4 by (auto dest!: arg_cong [where f = unat])
  have c_post: "pv \<notin> cells post" "pv + 4 \<notin> cells post" "p \<notin> cells post" "p + 4 \<notin> cells post"
    using pvp pv4 p4 n8 by (auto intro!: post_cells)
  have c_pre: "pv \<notin> cells fpre" "pv + 4 \<notin> cells fpre" "p \<notin> cells fpre" "p + 4 \<notin> cells fpre"
    using pvp pv4 p4 by (auto intro!: pre_cells)
  have "\<forall>x \<in> cells fpre. ?FI x = m x"
    using c_pre by (auto intro!: free_insert_frame)
  then have "lseg ?FI p0 fpre pv = lseg m p0 fpre pv" by (rule lseg_cong)
  then have f1: "lseg ?FI p0 fpre pv" using s1 rp by simp
  show "lseg ?FI p0 (fpre @ new) JMEM_HEAP_END_OF_LIST"
    and "regions lo (fpre @ new) hi"
    and "free_sum (fpre @ new) = free_sum (fpre @ (pv, u) # post) + unat n"
    and "\<forall>(c, v) \<in> set new. (c, v) \<in> set ((pv, u) # post) \<or> unat n \<le> unat v"
    and "fst ` set new \<subseteq> insert pv (insert p (fst ` set post))"
    and "pv \<in> fst ` set new"
  proof -
    have main: "lseg ?FI pv new JMEM_HEAP_END_OF_LIST \<and> regions ?B new hi
        \<and> free_sum new = unat u + unat n + free_sum post
        \<and> (\<forall>(c, v) \<in> set new. (c, v) \<in> set ((pv, u) # post) \<or> unat n \<le> unat v)
        \<and> fst ` set new \<subseteq> insert pv (insert p (fst ` set post)) \<and> pv \<in> fst ` set new"
    proof (cases "pv + u = p")
      case True
      then have pe: "unat p = unat pv + unat u" using pvu by simp
      let ?m1 = "m(pv + 4 := u + n)"
      have nw: "new = merge_next (pv, u + n) post" using new True by simp
      have ab: "\<forall>(c, v) \<in> set post. unat pv + unat (u + n) \<le> unat c"
        using above(2) pe un by auto
      have t8: "8 dvd unat (u + n)" unfolding un using u8 blk(2) by simp
      have le: "unat pv + unat (u + n) \<le> hi" using above(1) pe un by simp
      note mr = merge_next_regions [OF r3 hi ab Bpv pv8 t8 le]
      have sg: "lseg ?m1 (m pv) post JMEM_HEAP_END_OF_LIST" using s3 c_post by (simp add: lseg_frame)
      have "lseg ?FI pv (merge_next (pv, u + n) post) JMEM_HEAP_END_OF_LIST"
        unfolding free_insert_merge [where pv = pv and u = u and p = p and m = m, OF True mu]
        using link_next [OF sg _ pvE c_post(1,2) mr(5)] by simp
      moreover have "pv \<in> fst ` set (merge_next (pv, u + n) post)" by (cases post) auto
      moreover have "\<forall>(c, v) \<in> set (merge_next (pv, u + n) post).
          (c, v) \<in> set ((pv, u) # post) \<or> unat n \<le> unat v"
        using mr(3) un by auto
      ultimately show ?thesis unfolding nw using mr(1,2,4) un by auto
    next
      case False
      then have "unat pv + unat u \<noteq> unat p" using pvu by (auto simp: word_unat_eq_iff)
      then have lt: "unat pv + unat u < unat p" using below(2) by simp
      let ?m1 = "(m(p + 4 := n))(pv := p)"
      have nw: "new = (pv, u) # merge_next (p, n) post" using new False by simp
      have ab: "\<forall>(c, v) \<in> set post. unat p + unat n \<le> unat c" using above(2) .
      have lo': "Suc (unat pv + unat u) \<le> unat p" using lt by simp
      note mr = merge_next_regions [OF r3 hi ab lo' blk(1,2) above(1)]
      have sg: "lseg ?m1 (m pv) post JMEM_HEAP_END_OF_LIST" using s3 c_post by (simp add: lseg_frame)
      have m1n: "?m1 (p + 4) = n" using d by simp
      have fi: "?FI = (if p + n = m pv
            then let ma = ?m1(p + 4 := n + ?m1 (m pv + 4)) in ma(p := ma (m pv))
            else ?m1(p := m pv))"
        using False mu d(2) by (rule free_insert_link [where pv = pv and u = u and p = p and m = m])
      have l1: "lseg ?FI p (merge_next (p, n) post) JMEM_HEAP_END_OF_LIST"
        unfolding fi using link_next [OF sg m1n pE c_post(3,4) mr(5)] by simp
      have "?FI pv = p \<and> ?FI (pv + 4) = u"
        unfolding fi using d mu by (simp add: Let_def)
      then have "lseg ?FI pv ((pv, u) # merge_next (p, n) post) JMEM_HEAP_END_OF_LIST"
        using l1 pvE by simp
      moreover have "regions ?B ((pv, u) # merge_next (p, n) post) hi"
        using mr(1) r2 by simp
      moreover have "\<forall>(c, v) \<in> set ((pv, u) # merge_next (p, n) post).
          (c, v) \<in> set ((pv, u) # post) \<or> unat n \<le> unat v"
        using mr(3) by auto
      ultimately show ?thesis unfolding nw using mr(2,4) by auto
    qed
    show "lseg ?FI p0 (fpre @ new) JMEM_HEAP_END_OF_LIST"
      unfolding lseg_append using f1 main by blast
    show "regions lo (fpre @ new) hi" unfolding regions_app using r1 main by blast
    show "free_sum (fpre @ new) = free_sum (fpre @ (pv, u) # post) + unat n"
      using main by simp
    show "\<forall>(c, v) \<in> set new. (c, v) \<in> set ((pv, u) # post) \<or> unat n \<le> unat v"
      and "fst ` set new \<subseteq> insert pv (insert p (fst ` set post))"
      and "pv \<in> fst ` set new"
      using main by blast+
  qed
qed

lemma regions_sum: "regions lo ys hi \<Longrightarrow> ys \<noteq> [] \<Longrightarrow> lo + free_sum ys \<le> hi"
proof (induction ys arbitrary: lo)
  case Nil
  then show ?case by simp
next
  case (Cons x ys)
  obtain a s where x: "x = (a, s)" by (cases x)
  show ?case
  proof (cases "ys = []")
    case True
    then show ?thesis using Cons.prems x by simp
  next
    case False
    have "regions (Suc (unat a + unat s)) ys hi" using Cons.prems x by simp
    from Cons.IH [OF this False] show ?thesis using Cons.prems x by simp
  qed
qed

lemma END_not_less: "\<not> JMEM_HEAP_END_OF_LIST < (p::u32)"
  by (simp add: JMEM_HEAP_END_OF_LIST_def word_less_nat_alt unsigned_minus_1_eq_mask mask_eq_exp_minus_1)
    (use unsigned_less [of p, where 'a = nat] in simp)

lemma round_up_props: "8 dvd round_up n" "n \<le> round_up n" "0 < n \<Longrightarrow> 8 \<le> round_up n"
  "round_up n < n + 8"
  by (auto simp: round_up_def)

lemma free_walk_from_member:
  assumes seg: "lseg m f (front @ post) JMEM_HEAP_END_OF_LIST"
    and mem: "(st, s0) \<in> set front"
    and lst: "last front = (pv, u)"
    and below: "\<forall>(b, s) \<in> set (tl front). b < p \<and> jmem_is_heap_pointer L b"
    and above: "\<forall>(b, s) \<in> set post. \<not> b < p"
  shows "free_walk L p st m = ret pv" and "m pv \<in> insert JMEM_HEAP_END_OF_LIST (fst ` set post)"
    and "\<not> m pv < p"
proof -
  from split_list [OF mem] obtain A Bs where fr: "front = A @ (st, s0) # Bs" by blast
  have "lseg m f (A @ (st, s0) # (Bs @ post)) JMEM_HEAP_END_OF_LIST" using seg fr by simp
  then obtain r where "lseg m r ((st, s0) # (Bs @ post)) JMEM_HEAP_END_OF_LIST"
    unfolding lseg_append by blast
  then have "lseg m (m st) (Bs @ post) JMEM_HEAP_END_OF_LIST" by simp
  then obtain q where q1: "lseg m (m st) Bs q" and q2: "lseg m q post JMEM_HEAP_END_OF_LIST"
    unfolding lseg_append by blast
  have qin: "q \<in> insert JMEM_HEAP_END_OF_LIST (fst ` set post)" using q2 by (cases post) auto
  have nq: "\<not> q < p"
  proof (cases post)
    case Nil
    then have "q = JMEM_HEAP_END_OF_LIST" using q2 by simp
    then show ?thesis using END_not_less by simp
  next
    case (Cons x post')
    then show ?thesis using q2 above by (cases x) auto
  qed
  have "set Bs \<subseteq> set (tl front)" unfolding fr by (cases A) auto
  then have bl: "\<forall>(b, s) \<in> set Bs. b < p \<and> jmem_is_heap_pointer L b" using below by blast
  have "free_walk L p st m = ret (last (st # map fst Bs))"
    using q1 bl nq by (rule free_walk_reaches)
  moreover have lp: "last (st # map fst Bs) = pv"
  proof -
    have "last (st # map fst Bs) = fst (last ((st, s0) # Bs))"
      using last_map [of "(st, s0) # Bs" fst] by simp
    also have "last ((st, s0) # Bs) = last front" unfolding fr by simp
    finally show ?thesis using lst by simp
  qed
  ultimately show "free_walk L p st m = ret pv" by simp
  have "m (last (st # map fst Bs)) = q"
    using q1
  proof (induction Bs arbitrary: st)
    case Nil
    then show ?case by simp
  next
    case (Cons x Bs)
    then show ?case by (cases x) auto
  qed
  then have "m pv = q" using lp by simp
  then show "m pv \<in> insert JMEM_HEAP_END_OF_LIST (fst ` set post)" and "\<not> m pv < p"
    using qin nq by simp_all
qed

lemma free_block_inv:
  assumes inv: "heap_inv L h xs" and blk: "allocated_block L xs p sz"
  shows "\<exists>h' xs'. jmem_heap_free_block L p sz h = ret h' \<and> heap_inv L h' xs'
           \<and> free_sum xs' = free_sum xs + round_up (unat sz)
           \<and> unat (jmem_heap_allocated_size h') + round_up (unat sz) = unat (jmem_heap_allocated_size h)"
proof -
  let ?f = "first_p L"
  let ?m = "memory h"
  let ?hi = "unat (heap_addr L) + unat (JMEM_HEAP_SIZE L)"
  let ?n = "(sz + JMEM_ALIGNMENT - 1) div JMEM_ALIGNMENT * JMEM_ALIGNMENT"
  note ch = heap_inv_chain [OF inv]
  have L: "layout_ok L" by (rule ch(4))
  have hi: "?hi < 2 ^ 32" using L by (rule heap_inv_hi)
  have ua: "unat (area L) = unat (heap_addr L) + 8" using L by (rule unat_area)
  have szpos: "0 < unat sz" and p8: "8 dvd unat p" and plo: "unat (heap_addr L) + 8 \<le> unat p"
    and dis: "\<forall>(a, s) \<in> set xs. unat a + unat s \<le> unat p \<or> unat p + round_up (unat sz) \<le> unat a"
    using blk unfolding allocated_block_def ua by simp_all
  have phi: "unat p + round_up (unat sz) \<le> ?hi"
    using blk unfolding allocated_block_def area_end [OF L] by simp
  have "unat sz \<le> round_up (unat sz)" by (rule round_up_props)
  then have sz7: "unat sz + 7 < 2 ^ 32" using phi plo hi by simp
  have n: "unat ?n = round_up (unat sz)"
    unfolding JMEM_ALIGNMENT_def round_up_def using sz7 by (rule round8)
  have n8: "8 dvd unat ?n" unfolding n by (rule round_up_props)
  have npos: "0 < unat ?n" unfolding n using round_up_props(3) [OF szpos] by simp
  have hp: "jmem_is_heap_pointer L p"
    unfolding heap_pointer_nat [OF L] using plo phi by simp
  have szw: "0 < sz" using szpos by (simp add: word_less_nat_alt)
  have lim: "jmem_heap_allocated_size h \<le> jmem_heap_limit h" using inv by (simp add: heap_inv_def)
  have seg: "lseg ?m ?f ((?f, 0) # xs) JMEM_HEAP_END_OF_LIST"
    and reg: "regions (unat ?f) ((?f, 0) # xs) ?hi"
    and pos: "\<forall>(a, s) \<in> set xs. 0 < unat s"
    and cons: "unat (jmem_heap_allocated_size h) + free_sum xs = unat (JMEM_HEAP_AREA_SIZE L)"
    and skp: "jmem_heap_list_skip_p h \<in> insert ?f (insert JMEM_HEAP_END_OF_LIST (fst ` set xs))"
    using inv by (simp_all add: heap_inv_def)
  have uf: "unat ?f = unat (heap_addr L)" by (simp add: first_p_def)
  have flt: "unat ?f < unat p" using plo uf by simp
  have dis_full: "\<forall>(b, s) \<in> set ((?f, 0) # xs). unat b + unat s \<le> unat p \<or> unat p + unat ?n \<le> unat b"
    using dis flt unfolding n by auto
  from split_at_block [OF reg flt dis_full pos]
  obtain fpre pv u post where sp1: "(?f, 0) # xs = fpre @ (pv, u) # post"
    and sp2: "\<forall>(b, s) \<in> set (fpre @ [(pv, u)]). unat b < unat p"
    and sp3: "unat pv + unat u \<le> unat p"
    and sp4: "\<forall>(b, s) \<in> set post. unat p + unat ?n \<le> unat b"
    by blast
  define front where "front = fpre @ [(pv, u)]"
  have full: "(?f, 0) # xs = front @ post" using sp1 by (simp add: front_def)
  have fne: "front \<noteq> []" by (simp add: front_def)
  have fhd: "front = (?f, 0) # tl front" using full fne by (cases front) auto
  have xs_eq: "xs = tl front @ post" using full fhd by (metis append_Cons list.inject)
  have lst: "last front = (pv, u)" by (simp add: front_def)
  have below: "\<forall>(b, s) \<in> set (tl front). b < p \<and> jmem_is_heap_pointer L b"
  proof -
    have "b < p \<and> jmem_is_heap_pointer L b" if "(b, s) \<in> set (tl front)" for b s
    proof -
      have "(b, s) \<in> set front" using that fne by (meson list.set_sel(2))
      then have "unat b < unat p" using sp2 by (auto simp: front_def)
      moreover have "(b, s) \<in> set xs" using that xs_eq by simp
      ultimately show ?thesis using ch(3) by (auto simp: word_less_nat_alt)
    qed
    then show ?thesis by auto
  qed
  have above: "\<forall>(b, s) \<in> set post. \<not> b < p" using sp4 by (auto simp: word_less_nat_alt)
  define st where "st = (if p > jmem_heap_list_skip_p h then jmem_heap_list_skip_p h else ?f)"
  have "\<exists>s0. (st, s0) \<in> set front"
  proof (cases "p > jmem_heap_list_skip_p h")
    case False
    then have "st = ?f" by (simp add: st_def)
    then show ?thesis using fhd by (metis list.set_intros(1))
  next
    case True
    then have e: "st = jmem_heap_list_skip_p h" by (simp add: st_def)
    have "st \<noteq> JMEM_HEAP_END_OF_LIST" using True e END_not_less by auto
    then consider "st = ?f" | s where "(st, s) \<in> set xs" using skp e by auto
    then show ?thesis
    proof cases
      case 1
      then show ?thesis using fhd by (metis list.set_intros(1))
    next
      case 2
      then have "(st, s) \<in> set (tl front)" using xs_eq above True e by auto
      then show ?thesis using fne by (meson list.set_sel(2))
    qed
  qed
  then obtain s0 where stm: "(st, s0) \<in> set front" by blast
  have seg2: "lseg ?m ?f (front @ post) JMEM_HEAP_END_OF_LIST" using seg full by simp
  note fw = free_walk_from_member [OF seg2 stm lst below above]
  have seg3: "lseg ?m ?f (fpre @ (pv, u) # post) JMEM_HEAP_END_OF_LIST" using seg sp1 by simp
  have reg3: "regions (unat ?f) (fpre @ (pv, u) # post) ?hi" using reg sp1 by simp
  have pvlt: "unat pv < unat p" using sp2 by simp
  have phi': "unat p + unat ?n \<le> ?hi" using phi n by simp
  define new where "new = (if pv + u = p then merge_next (pv, u + ?n) post
                           else (pv, u) # merge_next (p, ?n) post)"
  note fi = free_insert_list [OF seg3 reg3 hi p8 n8 npos pvlt sp3 phi' sp4 new_def]
  have "\<exists>xs'. fpre @ new = (?f, 0) # xs'"
  proof (cases fpre)
    case Nil
    then have pvf: "pv = ?f" "u = 0" using sp1 by simp_all
    have "pv + u \<noteq> p" using pvf flt by auto
    then show ?thesis using Nil pvf by (simp add: new_def)
  next
    case (Cons x fpre')
    then show ?thesis using sp1 by simp
  qed
  then obtain xs' where xs': "fpre @ new = (?f, 0) # xs'" by blast
  have seg': "lseg (free_insert ?m pv (?m pv) p ?n) ?f ((?f, 0) # xs') JMEM_HEAP_END_OF_LIST"
    using fi(1) xs' by simp
  have reg': "regions (unat ?f) ((?f, 0) # xs') ?hi" using fi(2) xs' by simp
  have sum': "free_sum xs' = free_sum xs + unat ?n"
  proof -
    have "free_sum ((?f, 0) # xs') = free_sum ((?f, 0) # xs) + unat ?n"
      using fi(3) unfolding xs' sp1 [symmetric] .
    then show ?thesis by simp
  qed
  have r_xs': "regions (Suc (unat ?f)) xs' ?hi" using reg' by simp
  have lo_xs': "unat (area L) \<le> unat c" if "(c, v) \<in> set xs'" for c v
  proof -
    have "Suc (unat ?f) \<le> unat c" "8 dvd unat c" using regions_mem [OF r_xs' that] by simp_all
    moreover have "8 dvd unat ?f" using reg by simp
    ultimately have "unat ?f + 8 \<le> unat c" by (intro aligned_lt_plus8) simp_all
    then show ?thesis using ua uf by simp
  qed
  have pos': "\<forall>(c, v) \<in> set xs'. 0 < unat v"
  proof -
    have "0 < unat v" if "(c, v) \<in> set xs'" for c v
    proof -
      have cf: "c \<noteq> ?f" using lo_xs' [OF that] ua uf by auto
      have "(c, v) \<in> set (fpre @ new)" using that xs' by simp
      then have "(c, v) \<in> set (fpre @ (pv, u) # post) \<or> unat ?n \<le> unat v"
        using fi(4) by auto
      then have "(c, v) \<in> set ((?f, 0) # xs) \<or> unat ?n \<le> unat v" using sp1 by simp
      then show ?thesis using cf pos npos by auto
    qed
    then show ?thesis by auto
  qed
  have sum_le: "free_sum xs' \<le> unat (JMEM_HEAP_AREA_SIZE L)"
  proof (cases "xs' = []")
    case True
    then show ?thesis by simp
  next
    case False
    have "regions (unat (area L)) xs' ?hi" using lo_xs' by (intro regions_raise [OF r_xs']) auto
    from regions_sum [OF this False] show ?thesis using area_end [OF L] by simp
  qed
  have nle: "unat ?n \<le> unat (jmem_heap_allocated_size h)" using sum_le sum' cons by simp
  have apos: "0 < jmem_heap_allocated_size h" using nle npos by (simp add: word_less_nat_alt)
  have asub: "unat (jmem_heap_allocated_size h - ?n) = unat (jmem_heap_allocated_size h) - unat ?n"
    using nle by (rule unat_sub_nowrap)
  let ?h1 = "h\<lparr>memory := free_insert ?m pv (?m pv) p ?n,
                jmem_heap_allocated_size := jmem_heap_allocated_size h - ?n,
                jmem_heap_list_skip_p := pv\<rparr>"
  have le1: "jmem_heap_allocated_size ?h1 \<le> jmem_heap_limit ?h1"
    using lim asub by (simp add: word_le_nat_alt)
  have d1: "unat (jmem_heap_allocated_size ?h1) + unat (CONFIG_MEM_HEAP_DESIRED_LIMIT L) < 2 ^ 32"
    using ch(5) asub by simp
  from shrink_limit_returns [OF ch(6) d1 le1]
  obtain l where l: "shrink_limit L ?h1 = ret (?h1\<lparr>jmem_heap_limit := l\<rparr>)"
    "jmem_heap_allocated_size h - ?n \<le> l" by auto
  have skp': "pv \<in> insert ?f (insert JMEM_HEAP_END_OF_LIST (fst ` set xs'))"
  proof -
    have "pv \<in> fst ` set (fpre @ new)" using fi(6) by auto
    then show ?thesis unfolding xs' by auto
  qed
  have inv': "heap_inv L (?h1\<lparr>jmem_heap_limit := l\<rparr>) xs'"
    unfolding heap_inv_def using L seg' reg' pos' skp' l(2) asub sum' cons nle by simp
  have run: "jmem_heap_free_block L p sz h = ret (?h1\<lparr>jmem_heap_limit := l\<rparr>)"
    unfolding jmem_heap_free_block_def Let_def st_def [symmetric]
    using hp szw lim fw(1) apos l by simp
  show ?thesis
    apply (rule exI [of _ "?h1\<lparr>jmem_heap_limit := l\<rparr>"], rule exI [of _ xs'])
    using run inv' sum' asub nle n by simp
qed

section \<open>Consistency of the heap is an invariant\<close>

lemma neq_by_unat: "unat (x::u32) \<noteq> unat y \<Longrightarrow> x \<noteq> y"
  by auto

lemma init_inv:
  assumes L: "layout_ok L"
  shows "\<exists>h. jmem_heap_init L h0 = ret h \<and> heap_inv L h [(area L, JMEM_HEAP_AREA_SIZE L)]
           \<and> jmem_heap_allocated_size h = 0 \<and> jmem_heap_limit h = CONFIG_MEM_HEAP_DESIRED_LIMIT L
           \<and> jmem_heap_list_skip_p h = first_p L"
proof -
  let ?f = "first_p L"
  let ?a = "area L"
  have ua: "unat ?a = unat (heap_addr L) + 8" using L by (rule unat_area)
  have us: "unat (JMEM_HEAP_AREA_SIZE L) = unat (JMEM_HEAP_SIZE L) - 8" using L by (rule unat_area_size)
  have f8: "8 dvd unat (heap_addr L)" and s8: "8 dvd unat (JMEM_HEAP_SIZE L)"
    and s16: "16 \<le> unat (JMEM_HEAP_SIZE L)"
    using L by (simp_all add: layout_ok_def)
  have a8: "8 dvd unat ?a" unfolding ua using f8 by simp
  have am: "?a mod JMEM_ALIGNMENT = 0" using a8 by (simp add: JMEM_ALIGNMENT_def mod8_dvd)
  have f4: "unat (?f + 4) = unat (heap_addr L) + 4"
    using aligned_plus4 [OF f8] by (simp add: first_p_def)
  have a4: "unat (?a + 4) = unat (heap_addr L) + 12" using aligned_plus4 [OF a8] ua by simp
  have uf: "unat ?f = unat (heap_addr L)" by (simp add: first_p_def)
  have d: "?f \<noteq> ?a \<and> ?f + 4 \<noteq> ?a \<and> ?f \<noteq> ?a + 4 \<and> ?f + 4 \<noteq> ?a + 4 \<and> ?a + 4 \<noteq> ?a
      \<and> ?f + 4 \<noteq> ?f"
    by (intro conjI; rule neq_by_unat; simp only: ua f4 a4 uf; simp)
  have fE: "?f \<noteq> JMEM_HEAP_END_OF_LIST" unfolding first_p_def using f8 by (rule aligned_not_END)
  have aE: "?a \<noteq> JMEM_HEAP_END_OF_LIST" using a8 by (rule aligned_not_END)
  have sz8: "8 dvd unat (JMEM_HEAP_AREA_SIZE L)" unfolding us using s8 by (simp add: dvd_diff_nat)
  let ?h = "\<lparr>memory = ((((memory h0)(?f + 4 := 0))(?f := ?a))(?a + 4 := JMEM_HEAP_AREA_SIZE L))
                         (?a := JMEM_HEAP_END_OF_LIST),
             jmem_heap_allocated_size = 0,
             jmem_heap_limit = CONFIG_MEM_HEAP_DESIRED_LIMIT L,
             jmem_heap_list_skip_p = ?f\<rparr>"
  have run: "jmem_heap_init L h0 = ret ?h"
    using am by (simp add: jmem_heap_init_def Let_def)
  have "heap_inv L ?h [(?a, JMEM_HEAP_AREA_SIZE L)]"
    unfolding heap_inv_def using L d fE aE a8 sz8 ua us f8 s16
    by (simp add: first_p_def free_sum_def)
  then show ?thesis using run by auto
qed

lemma heap_inv_free_list: "heap_inv L h xs \<Longrightarrow> free_list L h xs"
  by (simp add: heap_inv_def free_list_def)

lemma free_list_unique: "free_list L h xs \<Longrightarrow> free_list L h ys \<Longrightarrow> xs = ys"
  unfolding free_list_def by (rule lseg_unique) simp_all

lemma heap_inv_store:
  assumes inv: "heap_inv L h xs" and blk: "allocated_block L xs p sz"
    and x: "unat p \<le> unat x" "unat x < unat p + round_up (unat sz)"
  shows "heap_inv L (h\<lparr>memory := (memory h)(x := v)\<rparr>) xs"
proof -
  let ?f = "first_p L"
  let ?hi = "unat (heap_addr L) + unat (JMEM_HEAP_SIZE L)"
  have L: "layout_ok L" using inv by (simp add: heap_inv_def)
  have ua: "unat (area L) = unat (heap_addr L) + 8" using L by (rule unat_area)
  have seg: "lseg (memory h) ?f ((?f, 0) # xs) JMEM_HEAP_END_OF_LIST"
    using inv by (simp add: heap_inv_def)
  have plo: "unat (heap_addr L) + 8 \<le> unat p"
    and dis: "\<forall>(a, s) \<in> set xs. unat a + unat s \<le> unat p \<or> unat p + round_up (unat sz) \<le> unat a"
    using blk unfolding allocated_block_def ua by simp_all
  have f8: "8 dvd unat ?f" using inv by (simp add: heap_inv_def)
  have "x \<notin> cells ((?f, 0) # xs)"
  proof
    assume "x \<in> cells ((?f, 0) # xs)"
    then obtain b s where bs: "(b, s) \<in> set ((?f, 0) # xs)" and xb: "x = b \<or> x = b + 4"
      by (auto simp: cells_def)
    show False
    proof (cases "(b, s) = (?f, 0)")
      case True
      then have "unat x \<le> unat (heap_addr L) + 4"
        using xb aligned_plus4 [OF f8] by (auto simp: first_p_def)
      then show False using x(1) plo by simp
    next
      case False
      then have m: "(b, s) \<in> set xs" using bs by auto
      note nb = heap_inv_node [OF inv m]
      have "unat x = unat b \<or> unat x = unat b + 4" using xb aligned_plus4 [OF nb(2)] by auto
      moreover have "unat b + unat s \<le> unat p \<or> unat p + round_up (unat sz) \<le> unat b"
        using dis m by auto
      ultimately show False using x nb(4) by auto
    qed
  qed
  then have "lseg ((memory h)(x := v)) ?f ((?f, 0) # xs) JMEM_HEAP_END_OF_LIST
      = lseg (memory h) ?f ((?f, 0) # xs) JMEM_HEAP_END_OF_LIST"
    by (rule lseg_frame)
  then have "lseg ((memory h)(x := v)) ?f ((?f, 0) # xs) JMEM_HEAP_END_OF_LIST"
    using seg by (simp only:)
  then show ?thesis using inv unfolding heap_inv_def by simp
qed

lemma bind_res_retE:
  assumes "bind_res r f = ret y"
  obtains x where "r = ret x" "f x = ret y"
  using assms by (auto simp: bind_res_def ret_def split: option.splits sum.splits)

lemma alloc_internal_block:
  assumes inv: "heap_inv L h xs"
    and run: "jmem_heap_alloc_block_internal L sz h = ret (p, h')"
  shows "\<exists>xs'. heap_inv L h' xs' \<and> jmem_heap_allocated_size h' < jmem_heap_limit h'
           \<and> (p \<noteq> NULL \<longrightarrow> 0 < unat sz \<longrightarrow> unat sz + 7 < 2 ^ 32 \<longrightarrow>
                 allocated_block L xs' p sz
                 \<and> unat (jmem_heap_allocated_size h')
                     = unat (jmem_heap_allocated_size h) + round_up (unat sz))
           \<and> (p = NULL \<longrightarrow> xs' = xs \<and> (\<exists>l. h' = h\<lparr>jmem_heap_limit := l\<rparr>)
                 \<and> (jmem_heap_allocated_size h < jmem_heap_limit h \<longrightarrow> h' = h))"
proof -
  define req where "req = (sz + JMEM_ALIGNMENT - 1) div JMEM_ALIGNMENT * JMEM_ALIGNMENT"
  from alloc_internal_inv [OF inv req_def]
  obtain p0 h0 xs' where r: "jmem_heap_alloc_block_internal L sz h = ret (p0, h0)"
    and i: "heap_inv L h0 xs'" and lt: "jmem_heap_allocated_size h0 < jmem_heap_limit h0"
    and n: "p0 = NULL \<longrightarrow> xs' = xs \<and> (\<forall>(b, s) \<in> set xs. s < req)
                 \<and> (\<exists>l. h0 = h\<lparr>jmem_heap_limit := l\<rparr>)
                 \<and> (jmem_heap_allocated_size h < jmem_heap_limit h \<longrightarrow> h0 = h)"
    and s: "p0 \<noteq> NULL \<longrightarrow> free_sum xs' + unat req = free_sum xs
                 \<and> unat (jmem_heap_allocated_size h0) = unat (jmem_heap_allocated_size h) + unat req
                 \<and> (\<exists>s. (p0, s) \<in> set xs \<and> req \<le> s)
                 \<and> (\<forall>(b, s) \<in> set xs'. unat b + unat s \<le> unat p0 \<or> unat p0 + unat req \<le> unat b)"
    by blast
  have e: "p0 = p" "h0 = h'" using r run by simp_all
  have blk: "allocated_block L xs' p sz
             \<and> unat (jmem_heap_allocated_size h') = unat (jmem_heap_allocated_size h) + round_up (unat sz)"
    if nn: "p \<noteq> NULL" and pos: "0 < unat sz" and nowrap: "unat sz + 7 < 2 ^ 32"
  proof -
    have rq: "unat req = round_up (unat sz)"
      unfolding req_def JMEM_ALIGNMENT_def round_up_def using nowrap by (rule round8)
    from s nn e obtain s0 where m: "(p, s0) \<in> set xs" and fit: "req \<le> s0"
      and al: "unat (jmem_heap_allocated_size h') = unat (jmem_heap_allocated_size h) + unat req"
      and dis: "\<forall>(b, s) \<in> set xs'. unat b + unat s \<le> unat p \<or> unat p + unat req \<le> unat b"
      by auto
    note np = heap_inv_node [OF inv m]
    have "unat req \<le> unat s0" using fit by (simp add: word_le_nat_alt)
    then have "unat p + round_up (unat sz) \<le> unat (area L) + unat (JMEM_HEAP_AREA_SIZE L)"
      using np(5) rq by simp
    then show ?thesis
      unfolding allocated_block_def using pos np(1,2) dis al rq by simp
  qed
  show ?thesis
    apply (rule exI [of _ xs'])
    using i lt n blk e by auto
qed

lemma gc_retry_loop_ConsE:
  assumes "gc_retry_loop L cb sz (sev # rest) (h, w) = ret r"
  obtains h1 w1 q h2 where "cb sev (h, w) = ret (h1, w1)"
    and "jmem_heap_alloc_block_internal L sz h1 = ret (q, h2)"
    and "if q \<noteq> NULL then r = (q, h2, w1) else gc_retry_loop L cb sz rest (h2, w1) = ret r"
proof -
  from assms obtain hw1 where c: "cb sev (h, w) = ret hw1"
    and k: "(case hw1 of (h1, w1) \<Rightarrow>
          bind_res (jmem_heap_alloc_block_internal L sz h1)
            (\<lambda>(data_space_p, h2).
               if data_space_p \<noteq> NULL then ret (data_space_p, h2, w1)
               else gc_retry_loop L cb sz rest (h2, w1))) = ret r"
    unfolding gc_retry_loop.simps jmem_run_free_unused_memory_callbacks_def
    by (rule bind_res_retE)
  obtain h1 w1 where hw1: "hw1 = (h1, w1)" by (cases hw1)
  from k obtain ph where a: "jmem_heap_alloc_block_internal L sz h1 = ret ph"
    and k2: "(case ph of (data_space_p, h2) \<Rightarrow>
               if data_space_p \<noteq> NULL then ret (data_space_p, h2, w1)
               else gc_retry_loop L cb sz rest (h2, w1)) = ret r"
    unfolding hw1 prod.case by (rule bind_res_retE)
  obtain q h2 where ph: "ph = (q, h2)" by (cases ph)
  have "if q \<noteq> NULL then r = (q, h2, w1) else gc_retry_loop L cb sz rest (h2, w1) = ret r"
    using k2 unfolding ph prod.case by (cases "q = NULL") auto
  then show ?thesis using that c a hw1 ph by blast
qed

lemma gc_and_allocE:
  assumes "jmem_heap_gc_and_alloc_block L cb sz (h, w) = ret r"
  obtains h0 w0 q h1 where
    "if jmem_heap_allocated_size h + sz \<ge> jmem_heap_limit h
     then cb JMEM_FREE_UNUSED_MEMORY_SEVERITY_LOW (h, w) = ret (h0, w0) else (h0, w0) = (h, w)"
    and "jmem_heap_alloc_block_internal L sz h0 = ret (q, h1)"
    and "if q \<noteq> NULL then r = (q, h1, w0)
         else gc_retry_loop L cb sz
                [JMEM_FREE_UNUSED_MEMORY_SEVERITY_LOW, JMEM_FREE_UNUSED_MEMORY_SEVERITY_HIGH]
                (h1, w0) = ret r"
proof -
  from assms obtain hw0 where c: "(if jmem_heap_allocated_size h + sz \<ge> jmem_heap_limit h
        then cb JMEM_FREE_UNUSED_MEMORY_SEVERITY_LOW (h, w) else ret (h, w)) = ret hw0"
    and k: "(case hw0 of (h0, w0) \<Rightarrow>
          bind_res (jmem_heap_alloc_block_internal L sz h0)
            (\<lambda>(data_space_p, h1).
               if data_space_p \<noteq> NULL then ret (data_space_p, h1, w0)
               else gc_retry_loop L cb sz
                      [JMEM_FREE_UNUSED_MEMORY_SEVERITY_LOW, JMEM_FREE_UNUSED_MEMORY_SEVERITY_HIGH]
                      (h1, w0))) = ret r"
    unfolding jmem_heap_gc_and_alloc_block_def jmem_run_free_unused_memory_callbacks_def fst_conv
    by (rule bind_res_retE)
  obtain h0 w0 where hw0: "hw0 = (h0, w0)" by (cases hw0)
  from k obtain ph where a: "jmem_heap_alloc_block_internal L sz h0 = ret ph"
    and k2: "(case ph of (data_space_p, h1) \<Rightarrow>
               if data_space_p \<noteq> NULL then ret (data_space_p, h1, w0)
               else gc_retry_loop L cb sz
                      [JMEM_FREE_UNUSED_MEMORY_SEVERITY_LOW, JMEM_FREE_UNUSED_MEMORY_SEVERITY_HIGH]
                      (h1, w0)) = ret r"
    unfolding hw0 prod.case by (rule bind_res_retE)
  obtain q h1 where ph: "ph = (q, h1)" by (cases ph)
  have 1: "if jmem_heap_allocated_size h + sz \<ge> jmem_heap_limit h
     then cb JMEM_FREE_UNUSED_MEMORY_SEVERITY_LOW (h, w) = ret (h0, w0) else (h0, w0) = (h, w)"
    using c hw0 by (auto split: if_splits)
  have 2: "if q \<noteq> NULL then r = (q, h1, w0)
         else gc_retry_loop L cb sz
                [JMEM_FREE_UNUSED_MEMORY_SEVERITY_LOW, JMEM_FREE_UNUSED_MEMORY_SEVERITY_HIGH]
                (h1, w0) = ret r"
    using k2 unfolding ph prod.case by (cases "q = NULL") auto
  show ?thesis using that 1 a 2 ph by blast
qed

lemma gc_retry_loop_last:
  assumes "heap_inv L h xs" and ok: "callbacks_ok L cb"
    and "gc_retry_loop L cb sz sevs (h, w) = ret (p, h', w')"
  shows "(\<exists>hb xb. heap_inv L hb xb \<and> jmem_heap_alloc_block_internal L sz hb = ret (p, h'))
         \<or> (sevs = [] \<and> p = NULL \<and> h' = h)"
  using assms(1,3)
proof (induction sevs arbitrary: h w xs)
  case Nil
  then show ?case by simp
next
  case (Cons sev rest)
  from Cons.prems(2) obtain h1 w1 q h2 where c1: "cb sev (h, w) = ret (h1, w1)"
    and a1: "jmem_heap_alloc_block_internal L sz h1 = ret (q, h2)"
    and k2: "if q \<noteq> NULL then (p, h', w') = (q, h2, w1)
             else gc_retry_loop L cb sz rest (h2, w1) = ret (p, h', w')"
    by (rule gc_retry_loop_ConsE)
  obtain xs1 where i1: "heap_inv L h1 xs1"
    using ok Cons.prems(1) c1 unfolding callbacks_ok_def by blast
  obtain xs2 where i2: "heap_inv L h2 xs2" using alloc_internal_block [OF i1 a1] by blast
  show ?case
  proof (cases "q = NULL")
    case False
    then show ?thesis using k2 a1 i1 by auto
  next
    case True
    then have "gc_retry_loop L cb sz rest (h2, w1) = ret (p, h', w')" using k2 by simp
    from Cons.IH [OF i2 this] show ?thesis using a1 i1 True by auto
  qed
qed

lemma gc_and_alloc_last:
  assumes inv: "heap_inv L h xs" and ok: "callbacks_ok L cb"
    and run: "jmem_heap_gc_and_alloc_block L cb sz (h, w) = ret (p, h', w')"
  shows "\<exists>hb xb. heap_inv L hb xb \<and> jmem_heap_alloc_block_internal L sz hb = ret (p, h')"
proof -
  from run obtain h0 w0 q h1 where c0:
    "if jmem_heap_allocated_size h + sz \<ge> jmem_heap_limit h
     then cb JMEM_FREE_UNUSED_MEMORY_SEVERITY_LOW (h, w) = ret (h0, w0) else (h0, w0) = (h, w)"
    and a0: "jmem_heap_alloc_block_internal L sz h0 = ret (q, h1)"
    and k1: "if q \<noteq> NULL then (p, h', w') = (q, h1, w0)
         else gc_retry_loop L cb sz
                [JMEM_FREE_UNUSED_MEMORY_SEVERITY_LOW, JMEM_FREE_UNUSED_MEMORY_SEVERITY_HIGH]
                (h1, w0) = ret (p, h', w')"
    by (rule gc_and_allocE)
  obtain xs0 where i0: "heap_inv L h0 xs0"
  proof (cases "jmem_heap_allocated_size h + sz \<ge> jmem_heap_limit h")
    case True
    then have "cb JMEM_FREE_UNUSED_MEMORY_SEVERITY_LOW (h, w) = ret (h0, w0)" using c0 by simp
    then show ?thesis using ok inv that unfolding callbacks_ok_def by blast
  next
    case False
    then show ?thesis using c0 inv that by simp
  qed
  obtain xs1 where i1: "heap_inv L h1 xs1" using alloc_internal_block [OF i0 a0] by blast
  show ?thesis
  proof (cases "q = NULL")
    case False
    then show ?thesis using k1 a0 i0 by auto
  next
    case True
    then have "gc_retry_loop L cb sz
        [JMEM_FREE_UNUSED_MEMORY_SEVERITY_LOW, JMEM_FREE_UNUSED_MEMORY_SEVERITY_HIGH] (h1, w0)
        = ret (p, h', w')" using k1 by simp
    from gc_retry_loop_last [OF i1 ok this] show ?thesis by simp
  qed
qed

lemma alloc_block_null_inv:
  assumes inv: "heap_inv L h xs" and ok: "callbacks_ok L cb"
    and run: "jmem_heap_alloc_block_null_on_error L cb sz (h, w) = ret (p, h', w')"
  shows "\<exists>xs'. heap_inv L h' xs'"
proof (cases "sz = 0")
  case True
  then show ?thesis using run inv by (auto simp: jmem_heap_alloc_block_null_on_error_def)
next
  case False
  then have "jmem_heap_gc_and_alloc_block L cb sz (h, w) = ret (p, h', w')"
    using run by (simp add: jmem_heap_alloc_block_null_on_error_def)
  from gc_and_alloc_last [OF inv ok this]
  obtain hb xb where "heap_inv L hb xb" "jmem_heap_alloc_block_internal L sz hb = ret (p, h')"
    by blast
  from alloc_internal_block [OF this] show ?thesis by blast
qed

lemma alloc_blockE:
  assumes "jmem_heap_alloc_block L cb sz hw = ret (p, hw')"
  obtains "sz = 0" "p = NULL" "hw' = hw"
  | "sz \<noteq> 0" "p \<noteq> NULL" "jmem_heap_gc_and_alloc_block L cb sz hw = ret (p, hw')"
proof (cases "sz = 0")
  case True
  then show ?thesis using assms that by (simp add: jmem_heap_alloc_block_def)
next
  case False
  then have "bind_res (jmem_heap_gc_and_alloc_block L cb sz hw)
          (\<lambda>(data_space_p, hw1).
             if data_space_p \<noteq> NULL then ret (data_space_p, hw1)
             else stop ERR_OUT_OF_MEMORY) = ret (p, hw')"
    using assms by (simp add: jmem_heap_alloc_block_def)
  then obtain r where g: "jmem_heap_gc_and_alloc_block L cb sz hw = ret r"
    and k: "(case r of (data_space_p, hw1) \<Rightarrow>
             if data_space_p \<noteq> NULL then ret (data_space_p, hw1)
             else stop ERR_OUT_OF_MEMORY) = ret (p, hw')"
    by (rule bind_res_retE)
  obtain q hw1 where r: "r = (q, hw1)" by (cases r)
  have "q \<noteq> NULL \<and> q = p \<and> hw1 = hw'" using k unfolding r prod.case by (cases "q = NULL") auto
  then show ?thesis using that(2) False g r by auto
qed

lemma alloc_block_inv:
  assumes inv: "heap_inv L h xs" and ok: "callbacks_ok L cb"
    and run: "jmem_heap_alloc_block L cb sz (h, w) = ret (p, h', w')"
  shows "\<exists>xs'. heap_inv L h' xs'
           \<and> (sz \<noteq> 0 \<longrightarrow> p \<noteq> NULL
                \<and> (\<exists>hb xb. heap_inv L hb xb \<and> jmem_heap_alloc_block_internal L sz hb = ret (p, h')))"
  using run
proof (cases rule: alloc_blockE)
  case 1
  then show ?thesis using inv by auto
next
  case 2
  from gc_and_alloc_last [OF inv ok 2(3)]
  obtain hb xb where b: "heap_inv L hb xb" "jmem_heap_alloc_block_internal L sz hb = ret (p, h')"
    by blast
  from alloc_internal_block [OF this] obtain xs' where "heap_inv L h' xs'" by blast
  then show ?thesis using 2 b by blast
qed

lemma alloc_store_sizeE:
  assumes "jmem_heap_alloc_block_store_size L cb sz hw = ret (q, h', w')"
  obtains "sz = 0" "q = NULL" "(h', w') = hw"
  | p h1 where "sz \<noteq> 0" "p \<noteq> NULL" "jmem_heap_alloc_block L cb (sz + 8) hw = ret (p, h1, w')"
      "q = p + 8" "h' = h1\<lparr>memory := (memory h1)(p + 4 := sz + 8)\<rparr>"
proof (cases "sz = 0")
  case True
  then show ?thesis using assms that(1) by (simp add: jmem_heap_alloc_block_store_size_def)
next
  case False
  then have "bind_res (jmem_heap_alloc_block L cb (sz + 8) hw)
             (\<lambda>(data_space_p, h, w).
                if data_space_p = NULL then stop Null_dereference
                else ret (data_space_p + 8,
                          h\<lparr>memory := (memory h)(data_space_p + 4 := sz + 8)\<rparr>, w)) = ret (q, h', w')"
    using assms by (simp add: jmem_heap_alloc_block_store_size_def Let_def)
  then obtain r where g: "jmem_heap_alloc_block L cb (sz + 8) hw = ret r"
    and k: "(case r of (data_space_p, h, w) \<Rightarrow>
                if data_space_p = NULL then stop Null_dereference
                else ret (data_space_p + 8,
                          h\<lparr>memory := (memory h)(data_space_p + 4 := sz + 8)\<rparr>, w)) = ret (q, h', w')"
    by (rule bind_res_retE)
  obtain p h1 w1 where r: "r = (p, h1, w1)" by (cases r)
  have "p \<noteq> NULL \<and> q = p + 8 \<and> h' = h1\<lparr>memory := (memory h1)(p + 4 := sz + 8)\<rparr> \<and> w1 = w'"
    using k unfolding r prod.case by (cases "p = NULL") auto
  then show ?thesis using that(2) False g r by auto
qed

lemma unat_plus8: "unat (sz::u32) + 15 < 2 ^ 32 \<Longrightarrow> unat (sz + 8) = unat sz + 8"
  by (subst unat_add_nowrap) auto

lemma alloc_store_size_inv:
  assumes inv: "heap_inv L h xs" and ok: "callbacks_ok L cb" and bound: "unat sz + 15 < 2 ^ 32"
    and run: "jmem_heap_alloc_block_store_size L cb sz (h, w) = ret (q, h', w')"
  shows "\<exists>xs'. heap_inv L h' xs'"
  using run
proof (cases rule: alloc_store_sizeE)
  case 1
  then show ?thesis using inv by auto
next
  case (2 p h1)
  have u8: "unat (sz + 8) = unat sz + 8" using bound by (rule unat_plus8)
  have nz: "sz + 8 \<noteq> 0" using u8 by (auto dest!: arg_cong [where f = unat])
  from alloc_block_inv [OF inv ok 2(3)] nz
  obtain hb xb where b: "heap_inv L hb xb" "jmem_heap_alloc_block_internal L (sz + 8) hb = ret (p, h1)"
    by blast
  from alloc_internal_block [OF b] 2(2) u8 bound
  obtain xs1 where i1: "heap_inv L h1 xs1" and blk: "allocated_block L xs1 p (sz + 8)"
    by auto
  have p8: "8 dvd unat p" using blk by (simp add: allocated_block_def)
  have "8 \<le> round_up (unat (sz + 8))" using round_up_props(3) [of "unat (sz + 8)"] u8 by simp
  then have "heap_inv L (h1\<lparr>memory := (memory h1)(p + 4 := sz + 8)\<rparr>) xs1"
    using aligned_plus4 [OF p8] by (intro heap_inv_store [OF i1 blk]) simp_all
  then show ?thesis using 2(5) by blast
qed

lemma free_stored_eq:
  "jmem_heap_free_block_size_stored L p h = jmem_heap_free_block L (p - 8) (memory h (p - 8 + 4)) h"
  by (simp add: jmem_heap_free_block_size_stored_def Let_def)

lemma reachable_inv: "reachable L hw \<Longrightarrow> \<exists>xs. heap_inv L (fst hw) xs"
proof (induction rule: reachable.induct)
  case (reach_init h0 h w)
  then show ?case using init_inv [of L h0] by auto
next
  case (reach_alloc h w cb sz p h' w')
  then show ?case using alloc_block_inv [of L h _ cb sz w p h' w'] by auto
next
  case (reach_alloc_null h w cb sz p h' w')
  then show ?case using alloc_block_null_inv [of L h _ cb sz w p h' w'] by auto
next
  case (reach_alloc_store_size h w cb sz p h' w')
  then show ?case using alloc_store_size_inv [of L h _ cb sz w p h' w'] by auto
next
  case (reach_free h w xs p sz h')
  then obtain ys where i: "heap_inv L h ys" by auto
  then have "ys = xs" using reach_free.hyps(2) heap_inv_free_list free_list_unique by blast
  then show ?case using free_block_inv [of L h xs p sz] i reach_free.hyps by auto
next
  case (reach_free_stored h w xs p h')
  then obtain ys where i: "heap_inv L h ys" by auto
  then have "ys = xs" using reach_free_stored.hyps(2) heap_inv_free_list free_list_unique by blast
  then show ?case
    using free_block_inv [of L h xs "p - 8" "memory h (p - 8 + 4)"] i reach_free_stored.hyps
    unfolding free_stored_eq by auto
next
  case (reach_store h w xs p sz x v)
  then obtain ys where i: "heap_inv L h ys" by auto
  then have "ys = xs" using reach_store.hyps(2) heap_inv_free_list free_list_unique by blast
  then show ?case using heap_inv_store [of L h xs p sz x v] i reach_store.hyps by auto
next
  case (reach_world h w w')
  then show ?case by simp
qed

end
